theory Spec2Isabelle
  imports Complex_Main "HOL-Library.AList"
begin

section \<open>Text as Python sees it\<close>

text \<open>
  A Python \<open>str\<close> is a sequence of code points. The model keeps the code points
  0..255 as \<^typ>\<open>char\<close>; everything the link exchanges with the device is ASCII
  (\<open>send\<close> encodes the request and decodes the response as ASCII), so only a name or a
  specification handed in by the caller can hold anything above 127.
  The character classes below are the ones of CPython for the code points 0..255.
\<close>

definition ord :: "char \<Rightarrow> nat" where
  "ord c = of_char c"

text \<open>\<open>str.isspace\<close>, which is also the class \<open>\s\<close> of \<open>re\<close> on \<open>str\<close> patterns.\<close>

definition isspace :: "char \<Rightarrow> bool" where
  "isspace c = (let n = ord c in
     (9 \<le> n \<and> n \<le> 13) \<or> (28 \<le> n \<and> n \<le> 32) \<or> n = 133 \<or> n = 160)"

text \<open>The decimal digits: \<open>0\<close> to \<open>9\<close> are the only code points below 256 that
  \<open>int\<close> and \<open>float\<close> read as digits.\<close>

definition isdecimal :: "char \<Rightarrow> bool" where
  "isdecimal c = (let n = ord c in 48 \<le> n \<and> n \<le> 57)"

text \<open>The class \<open>\w\<close> of \<open>re\<close> on \<open>str\<close> patterns: alphanumeric code points and the
  underscore. The source writes \<open>[\w_]\<close>, which is the same class.\<close>

definition isword :: "char \<Rightarrow> bool" where
  "isword c = (let n = ord c in
     (48 \<le> n \<and> n \<le> 57) \<or> (65 \<le> n \<and> n \<le> 90) \<or> n = 95 \<or> (97 \<le> n \<and> n \<le> 122) \<or>
     n = 170 \<or> n = 178 \<or> n = 179 \<or> n = 181 \<or> n = 185 \<or> n = 186 \<or>
     (188 \<le> n \<and> n \<le> 190) \<or> (192 \<le> n \<and> n \<le> 214) \<or> (216 \<le> n \<and> n \<le> 246) \<or>
     248 \<le> n)"

definition isascii :: "char \<Rightarrow> bool" where
  "isascii c = (ord c < 128)"

text \<open>\<open>str.strip()\<close> with no argument: drops the leading and the trailing white space.\<close>

definition strip :: "string \<Rightarrow> string" where
  "strip s = rev (dropWhile isspace (rev (dropWhile isspace s)))"

text \<open>\<open>str.split(sep)\<close> for a separator of one character; the result is never empty.\<close>

fun split :: "char \<Rightarrow> string \<Rightarrow> string list" where
  "split sep [] = [[]]"
| "split sep (c # cs) =
     (if c = sep then [] # split sep cs
      else (case split sep cs of [] \<Rightarrow> [[c]] | w # ws \<Rightarrow> (c # w) # ws))"

text \<open>\<open>str.replace("\r\n", "\n")\<close>, scanning from the left.\<close>

fun replace_crlf :: "string \<Rightarrow> string" where
  "replace_crlf [] = []"
| "replace_crlf [c] = [c]"
| "replace_crlf (c # d # cs) =
     (if c = CHR 0x0D \<and> d = CHR 0x0A then CHR 0x0A # replace_crlf cs
      else c # replace_crlf (d # cs))"

text \<open>\<open>str.lower()\<close> on the ASCII letters, which is all that the keywords of
  \<open>float\<close> need.\<close>

definition lower :: "char \<Rightarrow> char" where
  "lower c = (let n = ord c in if 65 \<le> n \<and> n \<le> 90 then char_of (n + 32) else c)"

section \<open>Errors and values\<close>

text \<open>
  The exceptions the code raises, as values. \<open>RuntimeError out\<close> is the
  \<open>RuntimeError(f"bad response: {out!r}")\<close> of \<open>_get\<close> and \<open>_set\<close>, holding the
  response text \<open>out\<close> that the message quotes; \<open>ValueError\<close> holds the text its
  message is built from. \<open>Blocked\<close> is not an exception: it stands for a read
  without timeout on a silent port, which never returns.
\<close>

datatype error =
    ValueError string
  | TypeError
  | RuntimeError string
  | UnicodeEncodeError
  | UnicodeDecodeError
  | Blocked

text \<open>
  \<open>Value = Union[str, float, int]\<close>. A float is kept as the decimal text it
  stands for; its rounding to binary64 is not modelled.
\<close>

datatype Value = VInt int | VFloat string | VStr string

section \<open>The built-in conversions \<open>int\<close> and \<open>float\<close>\<close>

text \<open>\<open>digitpart ::= digit (["_"] digit)*\<close> of the language reference.\<close>

fun digitpart :: "string \<Rightarrow> bool" where
  "digitpart [] = False"
| "digitpart [c] = isdecimal c"
| "digitpart (c # d # cs) =
     (isdecimal c \<and> (if d = CHR ''_'' then digitpart cs else digitpart (d # cs)))"

definition digits_value :: "string \<Rightarrow> int" where
  "digits_value s = foldl (\<lambda>a c. 10 * a + (int (ord c) - 48)) 0 (filter isdecimal s)"

text \<open>An optional sign in front of the rest.\<close>

fun split_sign :: "string \<Rightarrow> bool \<times> string" where
  "split_sign [] = (False, [])"
| "split_sign (c # cs) =
     (if c = CHR ''-'' then (True, cs) else if c = CHR ''+'' then (False, cs)
      else (False, c # cs))"

text \<open>The white space that \<open>int\<close> and \<open>float\<close> skip around the number.\<close>

definition numspace :: "char \<Rightarrow> bool" where
  "numspace c = (let n = ord c in (9 \<le> n \<and> n \<le> 13) \<or> n = 32 \<or> n = 133 \<or> n = 160)"

definition numstrip :: "string \<Rightarrow> string" where
  "numstrip s = rev (dropWhile numspace (rev (dropWhile numspace s)))"

text \<open>\<open>int(s)\<close> for a string in base ten: \<open>ValueError\<close> unless the text is an
  optional sign and a digit part.\<close>

definition py_int :: "string \<Rightarrow> error + int" where
  "py_int s =
     (case split_sign (numstrip s) of (neg, body) \<Rightarrow>
        if digitpart body
        then Inr (if neg then - digits_value body else digits_value body)
        else Inl (ValueError s))"

text \<open>
  \<open>float(s)\<close>: an optional sign, then \<open>inf\<close>, \<open>infinity\<close> or \<open>nan\<close> in any case, or
  \<open>number [exponent]\<close> with
  \<open>number ::= [digitpart] "." digitpart | digitpart ["."]\<close> and
  \<open>exponent ::= ("e" | "E") [sign] digitpart\<close>.
\<close>

definition float_number :: "string \<Rightarrow> bool" where
  "float_number s =
     (let ip = takeWhile (\<lambda>c. c \<noteq> CHR ''.'') s;
          fp = dropWhile (\<lambda>c. c \<noteq> CHR ''.'') s
      in case fp of
           [] \<Rightarrow> digitpart ip
         | _ # fr \<Rightarrow> (ip = [] \<and> digitpart fr) \<or> (digitpart ip \<and> (fr = [] \<or> digitpart fr)))"

definition float_exponent :: "string \<Rightarrow> bool" where
  "float_exponent s = digitpart (snd (split_sign s))"

definition is_e :: "char \<Rightarrow> bool" where
  "is_e c = (c = CHR ''e'' \<or> c = CHR ''E'')"

definition float_syntax :: "string \<Rightarrow> bool" where
  "float_syntax s =
     (let body = snd (split_sign s); low = map lower body
      in low = ''inf'' \<or> low = ''infinity'' \<or> low = ''nan'' \<or>
         (let m = takeWhile (\<lambda>c. \<not> is_e c) body;
              ex = dropWhile (\<lambda>c. \<not> is_e c) body
          in float_number m \<and> (case ex of [] \<Rightarrow> True | _ # e \<Rightarrow> float_exponent e)))"

definition py_float :: "string \<Rightarrow> error + string" where
  "py_float s =
     (if float_syntax (numstrip s) then Inr (numstrip s) else Inl (ValueError s))"

section \<open>\<open>normalize_response\<close>\<close>

text \<open>
  \<^verbatim>\<open>
  value = value.strip()
  try: return int(value)
  except ValueError: pass
  try: return float(value)
  except ValueError: pass
  return value
  \<close>
\<close>

definition normalize_response :: "string \<Rightarrow> Value" where
  "normalize_response value =
     (let value = strip value in
      case py_int value of
        Inr n \<Rightarrow> VInt n
      | Inl _ \<Rightarrow>
          (case py_float value of
             Inr x \<Rightarrow> VFloat x
           | Inl _ \<Rightarrow> VStr value))"

section \<open>Regular expressions\<close>

text \<open>
  The fragment of \<open>re\<close> that the three patterns of the source are written in: literal
  text, the greedy repetition of a character class (\<open>cls+\<close> and \<open>cls*\<close>) and a
  named group \<open>(?P<name>...)\<close> around one piece; a pattern is a list of pieces.
  The matcher backtracks as \<open>re\<close> does: every piece lists the lengths it can consume
  in the order \<open>re\<close> tries them (the longest repetition first), and the first
  alternative of the whole pattern that succeeds is the match.
\<close>

datatype regex =
    Literal string
  | OneOrMore "char \<Rightarrow> bool"
  | ZeroOrMore "char \<Rightarrow> bool"
  | Named string regex

type_synonym groups = "(string \<times> string) list"

fun match_piece :: "regex \<Rightarrow> string \<Rightarrow> (nat \<times> groups) list" where
  "match_piece (Literal t) s = (if take (length t) s = t then [(length t, [])] else [])"
| "match_piece (OneOrMore cls) s =
     map (\<lambda>n. (n, [])) (rev [1..<Suc (length (takeWhile cls s))])"
| "match_piece (ZeroOrMore cls) s =
     map (\<lambda>n. (n, [])) (rev [0..<Suc (length (takeWhile cls s))])"
| "match_piece (Named name r) s =
     map (\<lambda>(n, g). (n, g @ [(name, take n s)])) (match_piece r s)"

fun match_seq :: "regex list \<Rightarrow> string \<Rightarrow> (nat \<times> groups) list" where
  "match_seq [] s = [(0, [])]"
| "match_seq (r # rs) s =
     concat (map (\<lambda>(n, g). map (\<lambda>(m, h). (n + m, g @ h)) (match_seq rs (drop n s)))
                 (match_piece r s))"

text \<open>\<open>Pattern.match\<close>: the first alternative at the start of the text.\<close>

definition re_match :: "regex list \<Rightarrow> string \<Rightarrow> groups option" where
  "re_match p s = (case match_seq p s of [] \<Rightarrow> None | (n, g) # _ \<Rightarrow> Some g)"

text \<open>\<open>Pattern.fullmatch\<close>: the first alternative that consumes the whole text.\<close>

definition fullmatch :: "regex list \<Rightarrow> string \<Rightarrow> groups option" where
  "fullmatch p s =
     (case filter (\<lambda>(n, g). n = length s) (match_seq p s) of
        [] \<Rightarrow> None | (n, g) # _ \<Rightarrow> Some g)"

text \<open>\<open>Pattern.search\<close>: the match at the leftmost position that has one.\<close>

fun search :: "regex list \<Rightarrow> string \<Rightarrow> groups option" where
  "search p [] = re_match p []"
| "search p (c # cs) =
     (case re_match p (c # cs) of Some g \<Rightarrow> Some g | None \<Rightarrow> search p cs)"

text \<open>\<open>m.groupdict()[name]\<close>. Every group of the three patterns takes part in every
  match, so the key is always there.\<close>

definition groupdict :: "groups \<Rightarrow> string \<Rightarrow> string" where
  "groupdict g name = (case map_of g name of Some v \<Rightarrow> v | None \<Rightarrow> [])"

text \<open>\<^verbatim>\<open>FUNC_SPEC_RE = re.compile(r"(?P<name>[\w_]+)\((?P<args>[^()]*)\)")\<close>\<close>

definition FUNC_SPEC_RE :: "regex list" where
  "FUNC_SPEC_RE =
     [Named ''name'' (OneOrMore isword),
      Literal ''('',
      Named ''args'' (ZeroOrMore (\<lambda>c. c \<noteq> CHR ''('' \<and> c \<noteq> CHR '')'')),
      Literal '')'']"

text \<open>\<^verbatim>\<open>GET_RESP_RE = re.compile(r"Parameter\s+'(?P<name>[\w_]+)':\s+(?P<value>[^\n\r]+)")\<close>\<close>

definition GET_RESP_RE :: "regex list" where
  "GET_RESP_RE =
     [Literal ''Parameter'',
      OneOrMore isspace,
      Literal [CHR 0x27],
      Named ''name'' (OneOrMore isword),
      Literal [CHR 0x27, CHR '':''],
      OneOrMore isspace,
      Named ''value'' (OneOrMore (\<lambda>c. c \<noteq> CHR 0x0A \<and> c \<noteq> CHR 0x0D))]"

text \<open>\<^verbatim>\<open>SET_RESP_RE = re.compile(r"Parameter\s+'(?P<name>[\w_]+)'\s+set to\s+'(?P<value>[^\n\r']+)'")\<close>\<close>

definition SET_RESP_RE :: "regex list" where
  "SET_RESP_RE =
     [Literal ''Parameter'',
      OneOrMore isspace,
      Literal [CHR 0x27],
      Named ''name'' (OneOrMore isword),
      Literal [CHR 0x27],
      OneOrMore isspace,
      Literal ''set to'',
      OneOrMore isspace,
      Literal [CHR 0x27],
      Named ''value'' (OneOrMore (\<lambda>c. c \<noteq> CHR 0x0A \<and> c \<noteq> CHR 0x0D \<and> c \<noteq> CHR 0x27)),
      Literal [CHR 0x27]]"

section \<open>The link: class \<open>LVP\<close>\<close>

text \<open>
  The state of one \<open>LVP\<close> object. The serial port is not part of the repository; it
  is kept as a script: \<open>written\<close> holds the byte strings handed to
  \<open>Serial.write\<close>, oldest first, \<open>incoming\<close> holds what the successive read calls
  (\<open>readline\<close>, \<open>read_until\<close>) will return, and \<open>timeout\<close> is
  \<open>Serial.timeout\<close>. When the script is exhausted the port is silent: a read under
  a timeout returns the empty byte string, a read without one never returns.
  \<open>messages\<close> is the \<open>deque([], 64)\<close> of logged messages; the sink behind
  \<open>_log\<close> (a file) is outside the model, and so are the lock (one thread of control
  is modelled) and the cooldown sleep. \<open>declared\<close> are the attributes that
  \<open>declare\<close> sets on the object: the name and the argument names that the closure
  captures.
\<close>

record LVP =
  lvp_id :: "string option"
  device :: string
  lvp_quiet :: bool
  lvp_init :: bool
  messages :: "string list"
  declared :: "(string \<times> string list) list"
  written :: "string list"
  incoming :: "string list"
  timeout :: "rat option"

text \<open>What a method leaves behind: the value it returns or the exception it raises,
  and the state of the object.\<close>

type_synonym 'a result = "(error + 'a) \<times> LVP"

text \<open>\<^verbatim>\<open>
  @property
  def id(self):
      if self._id is None:
          return self.device.split("/")[-1]
      return self._id\<close>\<close>

definition LVP_id :: "LVP \<Rightarrow> string" where
  "LVP_id l = (case lvp_id l of None \<Rightarrow> last (split CHR ''/'' (device l)) | Some i \<Rightarrow> i)"

text \<open>\<open>log\<close>: the deque drops its oldest entry when it is full.\<close>

definition LVP_log :: "string \<Rightarrow> LVP \<Rightarrow> LVP" where
  "LVP_log msg l =
     (let ms = messages l @ [msg] in l\<lparr>messages := drop (length ms - 64) ms\<rparr>)"

definition serial_write :: "string \<Rightarrow> LVP \<Rightarrow> LVP" where
  "serial_write msg l = l\<lparr>written := written l @ [msg]\<rparr>"

definition serial_read :: "LVP \<Rightarrow> string result" where
  "serial_read l =
     (case incoming l of
        [] \<Rightarrow> (if timeout l = None then (Inl Blocked, l) else (Inr [], l))
      | x # xs \<Rightarrow> (Inr x, l\<lparr>incoming := xs\<rparr>))"

text \<open>
  The loop \<^verbatim>\<open>while msg: msg = self._serial.readline(); ...\<close>, which both \<open>init\<close> and
  \<open>_recv\<close> run under a timeout: the lines read, the last of them empty, and what
  stays queued.
\<close>

fun readlines :: "string list \<Rightarrow> string list \<times> string list" where
  "readlines [] = ([[]], [])"
| "readlines (x # xs) =
     (if x = [] then ([[]], xs)
      else (case readlines xs of (ms, rest) \<Rightarrow> (x # ms, rest)))"

text \<open>\<^verbatim>\<open>
  def _send(self, msg):
      self._serial.write(msg)
      self.log(b">>> " + msg)\<close>\<close>

definition LVP_send_raw :: "string \<Rightarrow> LVP \<Rightarrow> LVP" where
  "LVP_send_raw msg l = LVP_log (''>>> '' @ msg) (serial_write msg l)"

text \<open>\<open>init\<close>: drain the boot chatter under a timeout of 1/16 s, logging every line,
  then send the handshake without timeout and log what the port answers.\<close>

definition LVP_init :: "bool \<Rightarrow> LVP \<Rightarrow> unit result" where
  "LVP_init force l =
     (if force \<or> \<not> lvp_init l then
        (let l1 = l\<lparr>timeout := Some (1 / 16)\<rparr> in
         case readlines (incoming l1) of (msgs, rest) \<Rightarrow>
           (let l2 = fold LVP_log msgs (l1\<lparr>incoming := rest\<rparr>);
                l3 = l2\<lparr>timeout := None\<rparr>;
                l4 = LVP_send_raw (''manual_connect'' @ [CHR 0x0A]) l3
            in case serial_read l4 of
                 (Inl e, l5) \<Rightarrow> (Inl e, l5)
               | (Inr ack, l5) \<Rightarrow> (Inr (), (LVP_log ack l5)\<lparr>lvp_init := True\<rparr>)))
      else (Inr (), l))"

text \<open>
  \<open>_recv\<close>, with its \<open>flush\<close> flag. The three kinds of first read that \<open>until\<close>
  selects all take the next entry of the script, so \<open>until\<close> is left out.
  \<^verbatim>\<open>
  if self._quiet:
      return b""
  out = <read>
  if flush:
      msg = b"..."
      self._serial.timeout = timeout
      while msg:
          msg = self._serial.readline()
          out += msg
  return out\<close>
\<close>

definition LVP_recv :: "bool \<Rightarrow> LVP \<Rightarrow> string result" where
  "LVP_recv flush l =
     (if lvp_quiet l then (Inr [], l)
      else
        (case serial_read l of
           (Inl e, l1) \<Rightarrow> (Inl e, l1)
         | (Inr out, l1) \<Rightarrow>
             if flush then
               (case readlines (incoming l1) of (msgs, rest) \<Rightarrow>
                  (Inr (out @ concat msgs), l1\<lparr>timeout := Some (1 / 64), incoming := rest\<rparr>))
             else (Inr out, l1)))"

definition endswith_newline :: "string \<Rightarrow> bool" where
  "endswith_newline msg = (msg \<noteq> [] \<and> last msg = CHR 0x0A)"

text \<open>\<^verbatim>\<open>
  if not msg.endswith(b"\n"):
      msg += b"\n"\<close>\<close>

definition terminated :: "string \<Rightarrow> string" where
  "terminated msg = (if endswith_newline msg then msg else msg @ [CHR 0x0A])"

text \<open>\<open>send\<close>: the one exchange every higher operation goes through.\<close>

definition LVP_send :: "string \<Rightarrow> rat option \<Rightarrow> LVP \<Rightarrow> string result" where
  "LVP_send msg tmo l =
     (if \<not> list_all isascii msg then (Inl UnicodeEncodeError, l)
      else
        (let msg = terminated msg in
         case LVP_init False l of
           (Inl e, l1) \<Rightarrow> (Inl e, l1)
         | (Inr _, l1) \<Rightarrow>
             (let l2 = l1\<lparr>timeout := tmo\<rparr>;
                  l3 = LVP_send_raw msg l2
              in case LVP_recv True l3 of
                   (Inl e, l4) \<Rightarrow> (Inl e, l4)
                 | (Inr out, l4) \<Rightarrow>
                     (let l5 = LVP_log out l4 in
                      if list_all isascii out then (Inr (replace_crlf out), l5)
                      else (Inl UnicodeDecodeError, l5)))))"

text \<open>\<^verbatim>\<open>
  def _get(self, name):
      out = self.send(f"get({name})")
      m = GET_RESP_RE.search(out)
      data = m and m.groupdict()
      if not m or data["name"] != name:
          raise RuntimeError(f"bad response: {out!r}")
      return normalize_response(data["value"])\<close>\<close>

definition LVP_get1 :: "string \<Rightarrow> LVP \<Rightarrow> Value result" where
  "LVP_get1 name l =
     (case LVP_send (''get('' @ name @ '')'') None l of
        (Inl e, l1) \<Rightarrow> (Inl e, l1)
      | (Inr out, l1) \<Rightarrow>
          (case search GET_RESP_RE out of
             None \<Rightarrow> (Inl (RuntimeError out), l1)
           | Some data \<Rightarrow>
               if groupdict data ''name'' \<noteq> name then (Inl (RuntimeError out), l1)
               else (Inr (normalize_response (groupdict data ''value'')), l1)))"

text \<open>
  \<open>get(*args)\<close>: one name gives one value; several names, or one sequence of names,
  give a tuple, built by calling \<open>_get\<close> name after name.
\<close>

datatype get_args = OneName string | Names "string list"

datatype get_value = One Value | Tuple "Value list"

fun LVP_get_each :: "string list \<Rightarrow> LVP \<Rightarrow> Value list result" where
  "LVP_get_each [] l = (Inr [], l)"
| "LVP_get_each (name # names) l =
     (case LVP_get1 name l of
        (Inl e, l1) \<Rightarrow> (Inl e, l1)
      | (Inr v, l1) \<Rightarrow>
          (case LVP_get_each names l1 of
             (Inl e, l2) \<Rightarrow> (Inl e, l2)
           | (Inr vs, l2) \<Rightarrow> (Inr (v # vs), l2)))"

fun LVP_get :: "get_args \<Rightarrow> LVP \<Rightarrow> get_value result" where
  "LVP_get (OneName name) l =
     (case LVP_get1 name l of (Inl e, l1) \<Rightarrow> (Inl e, l1) | (Inr v, l1) \<Rightarrow> (Inr (One v), l1))"
| "LVP_get (Names names) l =
     (case LVP_get_each names l of
        (Inl e, l1) \<Rightarrow> (Inl e, l1) | (Inr vs, l1) \<Rightarrow> (Inr (Tuple vs), l1))"

text \<open>\<open>str(n)\<close> for an integer: decimal digits, a minus sign in front when negative.\<close>

fun str_nat :: "nat \<Rightarrow> string" where
  "str_nat n =
     (if n < 10 then [char_of (48 + n)] else str_nat (n div 10) @ [char_of (48 + n mod 10)])"

definition str_int :: "int \<Rightarrow> string" where
  "str_int i = (if i < 0 then CHR ''-'' # str_nat (nat (- i)) else str_nat (nat i))"

text \<open>
  What the f-string puts for \<open>{value}\<close>. The text of a float is its shortest
  round-trip decimal, which needs binary64 arithmetic; it is taken as the parameter
  \<open>float_str\<close>.
\<close>

fun format_value :: "(string \<Rightarrow> string) \<Rightarrow> Value \<Rightarrow> string" where
  "format_value float_str (VInt i) = str_int i"
| "format_value float_str (VFloat x) = float_str x"
| "format_value float_str (VStr s) = s"

text \<open>\<^verbatim>\<open>
  def _set(self, name, value):
      out = self.send(f"set({name},{value})")
      m = SET_RESP_RE.search(out)
      data = m and m.groupdict()
      if not m or data["name"] != name:
          raise RuntimeError(f"bad response: {out!r}")\<close>\<close>

definition set_request :: "(string \<Rightarrow> string) \<Rightarrow> string \<Rightarrow> Value \<Rightarrow> string" where
  "set_request float_str name v = ''set('' @ name @ '','' @ format_value float_str v @ '')''"

definition LVP_set1 :: "(string \<Rightarrow> string) \<Rightarrow> string \<Rightarrow> Value \<Rightarrow> LVP \<Rightarrow> unit result" where
  "LVP_set1 float_str name v l =
     (case LVP_send (set_request float_str name v) None l of
        (Inl e, l1) \<Rightarrow> (Inl e, l1)
      | (Inr out, l1) \<Rightarrow>
          (case search SET_RESP_RE out of
             None \<Rightarrow> (Inl (RuntimeError out), l1)
           | Some data \<Rightarrow>
               if groupdict data ''name'' \<noteq> name then (Inl (RuntimeError out), l1)
               else (Inr (), l1)))"

text \<open>
  The positional arguments of \<open>set(*args, **kwargs)\<close>, by their number: none, one
  mapping, a key and a value, or three and more. A \<open>dict\<close> is the list of its items
  in insertion order; \<open>d[k] = v\<close> is \<^const>\<open>AList.update\<close>, which overwrites in
  place or appends.
\<close>

datatype set_args =
    NoPositional
  | Mapping "(string \<times> Value) list"
  | KeyValue string Value
  | TooMany Value Value Value "Value list"

text \<open>\<^verbatim>\<open>
  if len(args) == 1:
      kwargs = {**args[0], **kwargs}
  elif len(args) == 2:
      key, value = args
      kwargs[key] = value
  elif len(args) > 2:
      raise TypeError("function accepts at most 2 positional arguments")\<close>\<close>

fun merge_args :: "set_args \<Rightarrow> (string \<times> Value) list \<Rightarrow> error + (string \<times> Value) list" where
  "merge_args NoPositional kwargs = Inr kwargs"
| "merge_args (Mapping m) kwargs = Inr (fold (\<lambda>(k, v). AList.update k v) kwargs m)"
| "merge_args (KeyValue key v) kwargs = Inr (AList.update key v kwargs)"
| "merge_args (TooMany a b c others) kwargs = Inl TypeError"

text \<open>\<^verbatim>\<open>
  for k, v in kwargs.items():
      self._set(k, v)\<close>\<close>

fun LVP_set_each :: "(string \<Rightarrow> string) \<Rightarrow> (string \<times> Value) list \<Rightarrow> LVP \<Rightarrow> unit result" where
  "LVP_set_each float_str [] l = (Inr (), l)"
| "LVP_set_each float_str ((k, v) # items) l =
     (case LVP_set1 float_str k v l of
        (Inl e, l1) \<Rightarrow> (Inl e, l1)
      | (Inr _, l1) \<Rightarrow> LVP_set_each float_str items l1)"

definition LVP_set :: "(string \<Rightarrow> string) \<Rightarrow> set_args \<Rightarrow> (string \<times> Value) list \<Rightarrow> LVP \<Rightarrow> unit result" where
  "LVP_set float_str args kwargs l =
     (case merge_args args kwargs of
        Inl e \<Rightarrow> (Inl e, l)
      | Inr items \<Rightarrow> LVP_set_each float_str items l)"

definition LVP_exec :: "string \<Rightarrow> LVP \<Rightarrow> string result" where
  "LVP_exec cmd l = LVP_send cmd None l"

subsection \<open>Quiet mode\<close>

text \<open>
  The context manager \<open>quiet\<close>, in its two halves around the \<open>yield\<close>.
  \<^verbatim>\<open>
  is_quiet = self._quiet
  if not is_quiet:
      self._send(b"quiet_connect\n")
  yield self
  self._quiet = is_quiet
  if not is_quiet:
      self.send("manual_connect")\<close>
  The generator has no \<open>try\<close>: when the block raises, the part after the \<open>yield\<close>
  does not run.
\<close>

definition LVP_quiet_enter :: "LVP \<Rightarrow> bool \<times> LVP" where
  "LVP_quiet_enter l =
     (let is_quiet = lvp_quiet l
      in (is_quiet,
          if \<not> is_quiet then LVP_send_raw (''quiet_connect'' @ [CHR 0x0A]) l else l))"

definition LVP_quiet_exit :: "bool \<Rightarrow> LVP \<Rightarrow> unit result" where
  "LVP_quiet_exit is_quiet l =
     (let l1 = l\<lparr>lvp_quiet := is_quiet\<rparr>
      in if \<not> is_quiet then
           (case LVP_send ''manual_connect'' None l1 of
              (Inl e, l2) \<Rightarrow> (Inl e, l2)
            | (Inr _, l2) \<Rightarrow> (Inr (), l2))
         else (Inr (), l1))"

definition LVP_quiet :: "(LVP \<Rightarrow> 'a result) \<Rightarrow> LVP \<Rightarrow> 'a result" where
  "LVP_quiet block l =
     (case LVP_quiet_enter l of (is_quiet, l1) \<Rightarrow>
        (case block l1 of
           (Inl e, l2) \<Rightarrow> (Inl e, l2)
         | (Inr r, l2) \<Rightarrow>
             (case LVP_quiet_exit is_quiet l2 of
                (Inl e, l3) \<Rightarrow> (Inl e, l3)
              | (Inr _, l3) \<Rightarrow> (Inr r, l3))))"

text \<open>\<^verbatim>\<open>
  is_quiet = self._quiet
  self._quiet = False
  if is_quiet:
      self.send("manual_connect")
  yield self
  self._quiet = is_quiet
  if not is_quiet:
      self._send(b"quiet_connect\n")\<close>\<close>

definition LVP_force_manual :: "(LVP \<Rightarrow> 'a result) \<Rightarrow> LVP \<Rightarrow> 'a result" where
  "LVP_force_manual block l =
     (let is_quiet = lvp_quiet l; l0 = l\<lparr>lvp_quiet := False\<rparr>
      in case (if is_quiet then LVP_send ''manual_connect'' None l0 else (Inr [], l0)) of
           (Inl e, l1) \<Rightarrow> (Inl e, l1)
         | (Inr _, l1) \<Rightarrow>
             (case block l1 of
                (Inl e, l2) \<Rightarrow> (Inl e, l2)
              | (Inr r, l2) \<Rightarrow>
                  (let l3 = l2\<lparr>lvp_quiet := is_quiet\<rparr>
                   in (Inr r,
                       if \<not> is_quiet then LVP_send_raw (''quiet_connect'' @ [CHR 0x0A]) l3
                       else l3))))"

definition LVP_maybe_quiet :: "bool \<Rightarrow> (LVP \<Rightarrow> 'a result) \<Rightarrow> LVP \<Rightarrow> 'a result" where
  "LVP_maybe_quiet flag block l = (if flag then LVP_quiet block l else block l)"

subsection \<open>Declared functions\<close>

text \<open>
  \<open>declare(spec, bind)\<close>: the closure is kept as the name and the argument names it
  captures; \<open>setattr(self, name, func)\<close> stores it under the name.
\<close>

definition LVP_declare :: "string \<Rightarrow> bool \<Rightarrow> LVP \<Rightarrow> (string \<times> string list) result" where
  "LVP_declare spec bind l =
     (case fullmatch FUNC_SPEC_RE spec of
        None \<Rightarrow> (Inl (ValueError spec), l)
      | Some data \<Rightarrow>
          (let name = groupdict data ''name'';
               argnames = map strip (split CHR '','' (groupdict data ''args''))
           in (Inr (name, argnames),
               if bind then l\<lparr>declared := AList.update name argnames (declared l)\<rparr> else l)))"

text \<open>\<^verbatim>\<open>
  def func(*args, quiet=False):
      with self._maybe_quiet(quiet):
          self.set(dict(zip(argnames, args)))
          return self.exec(name)\<close>\<close>

definition LVP_call ::
  "(string \<Rightarrow> string) \<Rightarrow> string \<times> string list \<Rightarrow> Value list \<Rightarrow> bool \<Rightarrow> LVP \<Rightarrow> string result" where
  "LVP_call float_str func args quiet l =
     (case func of (name, argnames) \<Rightarrow>
        LVP_maybe_quiet quiet
          (\<lambda>l0. case LVP_set float_str
                       (Mapping (fold (\<lambda>(k, v). AList.update k v) (zip argnames args) [])) [] l0 of
                  (Inl e, l1) \<Rightarrow> (Inl e, l1)
                | (Inr _, l1) \<Rightarrow> LVP_exec name l1)
          l)"

section \<open>The pool: class \<open>LVPPool\<close>\<close>

text \<open>
  \<open>self.devices\<close> is a read-only view of the \<open>dict\<close>
  \<^verbatim>\<open>{dev.id: dev for dev in devices}\<close>: the items in insertion order, a later
  device with an id already present replacing the earlier one in its place.
\<close>

type_synonym LVPPool = "(string \<times> LVP) list"

definition LVPPool_init :: "LVP list \<Rightarrow> LVPPool" where
  "LVPPool_init devices = fold (\<lambda>dev m. AList.update (LVP_id dev) dev m) devices []"

text \<open>\<open>__iter__\<close>: \<open>iter(self.devices.values())\<close>.\<close>

definition LVPPool_iter :: "LVPPool \<Rightarrow> LVP list" where
  "LVPPool_iter pool = map snd pool"

text \<open>
  The selectors that \<open>query\<close> tells apart: the sentinel \<open>...\<close>, a link, a list or
  tuple of selectors, and an id.
\<close>

datatype selector = Ellipsis | Link LVP | Sequence "selector list" | Key string

text \<open>
  \<open>result.update(xs)\<close> on a \<open>set\<close>. The set is kept as a list without repetition;
  the order in which Python enumerates a set is not fixed by the language, and the order
  of this list stands for one of the possible ones.
\<close>

definition set_update :: "'a list \<Rightarrow> 'a list \<Rightarrow> 'a list" where
  "set_update result xs = fold (\<lambda>x r. if x \<in> set r then r else r @ [x]) xs result"

text \<open>\<^verbatim>\<open>
  if query == ...:
      return list(self.devices.values())
  elif isinstance(query, LVP):
      return self.query(query.id)
  elif isinstance(query, (list, tuple)):
      result = set()
      for q in query:
          result.update(self.query(q))
      return list(result)
  elif query in self.devices:
      return [self.devices[query]]
  raise ValueError("invalid query")\<close>
  An id is a string, so the call \<open>self.query(query.id)\<close> goes to the last two cases.
\<close>

definition query_key :: "LVPPool \<Rightarrow> string \<Rightarrow> error + LVP list" where
  "query_key pool k =
     (case map_of pool k of
        Some dev \<Rightarrow> Inr [dev]
      | None \<Rightarrow> Inl (ValueError ''invalid query''))"

fun LVPPool_query :: "LVPPool \<Rightarrow> selector \<Rightarrow> error + LVP list"
  and query_each :: "LVPPool \<Rightarrow> selector list \<Rightarrow> LVP list \<Rightarrow> error + LVP list" where
  "LVPPool_query pool Ellipsis = Inr (map snd pool)"
| "LVPPool_query pool (Link dev) = query_key pool (LVP_id dev)"
| "LVPPool_query pool (Sequence qs) = query_each pool qs []"
| "LVPPool_query pool (Key k) = query_key pool k"
| "query_each pool [] result = Inr result"
| "query_each pool (q # qs) result =
     (case LVPPool_query pool q of
        Inl e \<Rightarrow> Inl e
      | Inr devs \<Rightarrow> query_each pool qs (set_update result devs))"

text \<open>
  \<open>_parallel_map\<close>. Each thread runs \<^verbatim>\<open>results[i] = func(dev, *args, **kwargs)\<close>:
  when \<open>func\<close> returns, the slot is written; when it raises, the thread ends and the
  slot keeps its \<open>None\<close>; \<open>Inl Blocked\<close> is a call that never returns. What the
  threads do to the links is not followed here, only the slots.
  The scheduler is the parameter \<open>finished\<close>: the indices of the threads whose
  target has ended by the time the results are read, in the order in which they ended.
  With \<open>timeout=None\<close> the joins wait for every thread, so the method returns only
  when all of them are among the finished ones; with a timeout it always returns.
\<close>

definition target :: "(LVP \<Rightarrow> error + 'r) \<Rightarrow> LVP list \<Rightarrow> nat \<Rightarrow> 'r option list \<Rightarrow> 'r option list" where
  "target func devices i results =
     (if i < length devices then
        (case func (devices ! i) of Inr r \<Rightarrow> results[i := Some r] | Inl e \<Rightarrow> results)
      else results)"





section \<open>Auxiliary notions for the proofs\<close>

text \<open>What holds of a registry that the constructor built: no id twice, and every
  link filed under its own id.\<close>

definition pool_inv :: "LVPPool \<Rightarrow> bool" where
  "pool_inv m = (distinct (map fst m) \<and> (\<forall>(k, dev) \<in> set m. LVP_id dev = k))"

text \<open>A link after its handshake, not quiet, nothing logged or written yet, on the
  device path \<open>d\<close> and with the port script \<open>script\<close>.\<close>

definition ready_link :: "string \<Rightarrow> string list \<Rightarrow> LVP" where
  "ready_link d script =
     \<lparr>lvp_id = None, device = d, lvp_quiet = False, lvp_init = True, messages = [],
      declared = [], written = [], incoming = script, timeout = None\<rparr>"




text \<open>The links that a selector selects; none when it is invalid.\<close>

definition selected :: "LVPPool \<Rightarrow> selector \<Rightarrow> LVP set" where
  "selected pool q = (case LVPPool_query pool q of Inr devs \<Rightarrow> set devs | Inl e \<Rightarrow> {})"

subsection \<open>What the patterns mean\<close>

text \<open>
  The meaning of a pattern, independently of the matcher: \<open>sem_seq p w g\<close> says that the
  text \<open>w\<close>, all of it, is of the form the pattern \<open>p\<close> describes, the named groups
  covering the parts listed in \<open>g\<close>.
\<close>

fun sem_piece :: "regex \<Rightarrow> string \<Rightarrow> groups \<Rightarrow> bool" where
  "sem_piece (Literal t) w g = (w = t \<and> g = [])"
| "sem_piece (OneOrMore cls) w g = (w \<noteq> [] \<and> list_all cls w \<and> g = [])"
| "sem_piece (ZeroOrMore cls) w g = (list_all cls w \<and> g = [])"
| "sem_piece (Named name r) w g = (\<exists>g'. sem_piece r w g' \<and> g = g' @ [(name, w)])"

fun sem_seq :: "regex list \<Rightarrow> string \<Rightarrow> groups \<Rightarrow> bool" where
  "sem_seq [] w g = (w = [] \<and> g = [])"
| "sem_seq (r # rs) w g =
     (\<exists>w1 w2 g1 g2. w = w1 @ w2 \<and> g = g1 @ g2 \<and> sem_piece r w1 g1 \<and> sem_seq rs w2 g2)"

text \<open>The text starts with, or contains, a part of the form of the pattern.\<close>

definition starts :: "regex list \<Rightarrow> string \<Rightarrow> groups \<Rightarrow> bool" where
  "starts p s g = (\<exists>w post. s = w @ post \<and> sem_seq p w g)"

definition occurs :: "regex list \<Rightarrow> string \<Rightarrow> groups \<Rightarrow> bool" where
  "occurs p s g = (\<exists>pre w post. s = pre @ w @ post \<and> sem_seq p w g)"




text \<open>
  The bytes that one call of \<open>_set\<close> hands to the port: the request text with its line
  feed.
\<close>

definition request :: "(string \<Rightarrow> string) \<Rightarrow> string \<times> Value \<Rightarrow> string" where
  "request float_str item = set_request float_str (fst item) (snd item) @ [CHR 0x0A]"

text \<open>
  The form \<open>Parameter 'NAME' set to 'VALUE'\<close> that \<^const>\<open>SET_RESP_RE\<close> describes: the
  white space between the words is any non-empty run, the name is a non-empty run of word
  characters, the value a non-empty run without line ends and quotes.
\<close>

definition set_response_form :: "string \<Rightarrow> string \<Rightarrow> string \<Rightarrow> bool" where
  "set_response_form w name v =
     (\<exists>ws1 ws2 ws3.
        w = ''Parameter'' @ ws1 @ [CHR 0x27] @ name @ [CHR 0x27] @ ws2 @ ''set to'' @ ws3 @ [CHR 0x27] @ v @ [CHR 0x27]
        \<and> ws1 \<noteq> [] \<and> list_all isspace ws1
        \<and> name \<noteq> [] \<and> list_all isword name
        \<and> ws2 \<noteq> [] \<and> list_all isspace ws2
        \<and> ws3 \<noteq> [] \<and> list_all isspace ws3
        \<and> v \<noteq> [] \<and> list_all (\<lambda>c. c \<noteq> CHR 0x0A \<and> c \<noteq> CHR 0x0D \<and> c \<noteq> CHR 0x27) v)"

text \<open>An answer of the device to a \<open>set\<close> request.\<close>

definition set_answer :: "string \<Rightarrow> string \<Rightarrow> string" where
  "set_answer name v =
     ''Parameter '' @ [CHR 0x27] @ name @ [CHR 0x27] @ '' set to '' @ [CHR 0x27] @ v
       @ [CHR 0x27, CHR 0x0D, CHR 0x0A]"

section \<open>Properties of the pool\<close>

lemma set_set_update: "set (set_update result xs) = set result \<union> set xs"
  unfolding set_update_def by (induction xs arbitrary: result) auto

lemma distinct_set_update: "distinct result \<Longrightarrow> distinct (set_update result xs)"
  unfolding set_update_def by (induction xs arbitrary: result) auto

lemma set_update_absorb: "set xs \<subseteq> set result \<Longrightarrow> set_update result xs = result"
  unfolding set_update_def by (induction xs arbitrary: result) auto

lemma query_each_distinct:
  "distinct result \<Longrightarrow> query_each pool qs result = Inr devs \<Longrightarrow> distinct devs"
  by (induction qs arbitrary: result) (auto split: sum.splits intro: distinct_set_update)

lemma set_alist_update_subset: "set (AList.update k v al) \<subseteq> insert (k, v) (set al)"
  by (induction al) auto

lemma pool_inv_update: "pool_inv m \<Longrightarrow> pool_inv (AList.update (LVP_id dev) dev m)"
  unfolding pool_inv_def using set_alist_update_subset [of "LVP_id dev" dev m]
  by (auto simp: distinct_update)

lemma pool_inv_fold:
  "pool_inv m \<Longrightarrow> pool_inv (fold (\<lambda>dev m. AList.update (LVP_id dev) dev m) devices m)"
  by (induction devices arbitrary: m) (auto intro: pool_inv_update)

lemma pool_inv_init: "pool_inv (LVPPool_init devices)"
  unfolding LVPPool_init_def by (rule pool_inv_fold) (simp add: pool_inv_def)

lemma keys_fold:
  "fst ` set (fold (\<lambda>dev m. AList.update (LVP_id dev) dev m) devices m) =
     LVP_id ` set devices \<union> fst ` set m"
  by (induction devices arbitrary: m) (auto simp: dom_update)

lemma keys_init: "set (map fst (LVPPool_init devices)) = LVP_id ` set devices"
  unfolding LVPPool_init_def using keys_fold [of devices "[]"] by simp

lemma pool_inv_ids: "pool_inv m \<Longrightarrow> map LVP_id (map snd m) = map fst m"
  unfolding pool_inv_def by (induction m) auto

lemma LVP_id_ready_link [simp]: "LVP_id (ready_link d script) = last (split CHR ''/'' d)"
  by (simp add: LVP_id_def ready_link_def)

lemma query_each_Inr:
  "query_each pool qs result = Inr devs \<Longrightarrow>
     (\<forall>q\<in>set qs. \<exists>ds. LVPPool_query pool q = Inr ds)
     \<and> set devs = set result \<union> (\<Union>q\<in>set qs. selected pool q)"
proof (induction qs arbitrary: result)
  case Nil
  then show ?case by simp
next
  case (Cons q qs)
  from Cons.prems obtain ds where q: "LVPPool_query pool q = Inr ds"
    and rest: "query_each pool qs (set_update result ds) = Inr devs"
    by (auto split: sum.splits)
  from Cons.IH [OF rest] q show ?case
    by (auto simp: selected_def set_set_update)
qed

lemma query_each_Inl:
  "query_each pool qs result = Inl e \<Longrightarrow> \<exists>q\<in>set qs. LVPPool_query pool q = Inl e"
proof (induction qs arbitrary: result)
  case Nil
  then show ?case by simp
next
  case (Cons q qs)
  show ?case
  proof (cases "LVPPool_query pool q")
    case (Inl e')
    with Cons.prems show ?thesis by simp
  next
    case (Inr ds)
    with Cons.prems have "query_each pool qs (set_update result ds) = Inl e" by simp
    from Cons.IH [OF this] show ?thesis by auto
  qed
qed

lemma distinct_values: "pool_inv m \<Longrightarrow> distinct (map snd m)"
proof -
  assume inv: "pool_inv m"
  have e: "map LVP_id (map snd m) = map fst m" using inv by (rule pool_inv_ids)
  have "distinct (map fst m)" using inv by (simp add: pool_inv_def)
  then have "distinct (map LVP_id (map snd m))" by (simp only: e)
  then have "distinct (map snd m) \<and> inj_on LVP_id (set (map snd m))"
    by (simp only: distinct_map)
  then show ?thesis by (rule conjunct1)
qed

text \<open>
  Claim C3. Querying the sequence \<open>[a, a, b]\<close> gives the same set of links as
  querying \<open>[a, b]\<close> (and the same error when a selector is invalid). The result
  of a sequence has no repetition and holds exactly the links that its selectors
  select, each of which must be valid; when it is an error, it is the error of one of
  them. An id selects the link registered under it and is an error when none is; a
  link selects as its id does. Querying the sentinel \<open>...\<close> on a pool built by the
  constructor gives the links of the registry in its iteration order, each once, one
  for each registered id, the ids being those of the devices the pool was built from.
\<close>

theorem query_dedup_and_wildcard:
  "map_sum id set (LVPPool_query pool (Sequence [a, a, b])) =
     map_sum id set (LVPPool_query pool (Sequence [a, b]))
   \<and> (case LVPPool_query pool (Sequence qs) of
         Inr devs \<Rightarrow> distinct devs \<and> set devs = (\<Union>q\<in>set qs. selected pool q)
                     \<and> (\<forall>q\<in>set qs. \<exists>ds. LVPPool_query pool q = Inr ds)
       | Inl e \<Rightarrow> \<exists>q\<in>set qs. LVPPool_query pool q = Inl e)
   \<and> LVPPool_query pool (Key k) =
       (case map_of pool k of Some dev \<Rightarrow> Inr [dev] | None \<Rightarrow> Inl (ValueError ''invalid query''))
   \<and> LVPPool_query pool (Link dev) = LVPPool_query pool (Key (LVP_id dev))
   \<and> LVPPool_query (LVPPool_init devices) Ellipsis = Inr (LVPPool_iter (LVPPool_init devices))
   \<and> distinct (LVPPool_iter (LVPPool_init devices))
   \<and> map LVP_id (LVPPool_iter (LVPPool_init devices)) = map fst (LVPPool_init devices)
   \<and> distinct (map fst (LVPPool_init devices))
   \<and> set (map fst (LVPPool_init devices)) = LVP_id ` set devices"
proof -
  have dedup: "LVPPool_query pool (Sequence [a, a, b]) = LVPPool_query pool (Sequence [a, b])"
  proof (cases "LVPPool_query pool a")
    case (Inl e)
    then show ?thesis by simp
  next
    case (Inr devs)
    have "set_update (set_update [] devs) devs = set_update [] devs"
      by (rule set_update_absorb) (simp add: set_set_update)
    with Inr show ?thesis by simp
  qed
  have union: "case LVPPool_query pool (Sequence qs) of
         Inr devs \<Rightarrow> distinct devs \<and> set devs = (\<Union>q\<in>set qs. selected pool q)
                     \<and> (\<forall>q\<in>set qs. \<exists>ds. LVPPool_query pool q = Inr ds)
       | Inl e \<Rightarrow> \<exists>q\<in>set qs. LVPPool_query pool q = Inl e"
  proof (cases "LVPPool_query pool (Sequence qs)")
    case (Inl e)
    then have "query_each pool qs [] = Inl e" by simp
    from query_each_Inl [OF this] Inl show ?thesis by simp
  next
    case (Inr devs)
    then have q: "query_each pool qs [] = Inr devs" by simp
    have "distinct devs" using query_each_distinct [OF _ q] by simp
    with query_each_Inr [OF q] Inr show ?thesis by simp
  qed
  have key: "LVPPool_query pool (Key k) =
       (case map_of pool k of Some dev \<Rightarrow> Inr [dev] | None \<Rightarrow> Inl (ValueError ''invalid query''))"
    by (simp add: query_key_def)
  have link: "LVPPool_query pool (Link dev) = LVPPool_query pool (Key (LVP_id dev))" by simp
  have inv: "pool_inv (LVPPool_init devices)" by (rule pool_inv_init)
  have wild: "LVPPool_query (LVPPool_init devices) Ellipsis = Inr (LVPPool_iter (LVPPool_init devices))"
    by (simp add: LVPPool_iter_def)
  have once: "distinct (LVPPool_iter (LVPPool_init devices))"
    unfolding LVPPool_iter_def using inv by (rule distinct_values)
  have ids: "map LVP_id (LVPPool_iter (LVPPool_init devices)) = map fst (LVPPool_init devices)"
    unfolding LVPPool_iter_def using inv by (rule pool_inv_ids)
  have dk: "distinct (map fst (LVPPool_init devices))" using inv by (simp add: pool_inv_def)
  have ks: "set (map fst (LVPPool_init devices)) = LVP_id ` set devices" by (rule keys_init)
  from dedup have d': "map_sum id set (LVPPool_query pool (Sequence [a, a, b])) =
     map_sum id set (LVPPool_query pool (Sequence [a, b]))" by simp
  show ?thesis
    by (intro conjI) (rule d' union key link wild once ids dk ks)+
qed

theorem query_dedup_and_wildcard_witness:
  "map_sum id set (LVPPool_query (LVPPool_init [ready_link ''A'' [], ready_link ''B'' []])
         (Sequence [Key ''A'', Key ''A'', Key ''B'']))
     = Inr {ready_link ''A'' [], ready_link ''B'' []}
   \<and> map_sum id set (LVPPool_query (LVPPool_init [ready_link ''A'' [], ready_link ''B'' []])
         (Sequence [Key ''A'', Key ''B'']))
     = Inr {ready_link ''A'' [], ready_link ''B'' []}
   \<and> map_sum id set (LVPPool_query (LVPPool_init [ready_link ''A'' [], ready_link ''B'' []])
         (Sequence [Key ''A'']))
     = Inr {ready_link ''A'' []}
   \<and> LVPPool_query (LVPPool_init [ready_link ''A'' [], ready_link ''B'' []]) (Sequence [Key ''Z''])
     = Inl (ValueError ''invalid query'')
   \<and> LVPPool_query (LVPPool_init [ready_link ''A'' [], ready_link ''B'' []]) Ellipsis
     = Inr [ready_link ''A'' [], ready_link ''B'' []]"
proof -
  let ?P = "LVPPool_init [ready_link ''A'' [], ready_link ''B'' []]"
  let ?A = "ready_link ''A'' []"
  let ?B = "ready_link ''B'' []"
  have pool: "?P = [(''A'', ?A), (''B'', ?B)]"
    by (simp add: LVPPool_init_def)
  have okA: "LVPPool_query ?P (Key ''A'') = Inr [?A]"
    and okB: "LVPPool_query ?P (Key ''B'') = Inr [?B]"
    and noZ: "LVPPool_query ?P (Key ''Z'') = Inl (ValueError ''invalid query'')"
    unfolding pool by (simp_all add: query_key_def)
  have sA: "selected ?P (Key ''A'') = {?A}" and sB: "selected ?P (Key ''B'') = {?B}"
    unfolding selected_def okA okB by simp_all
  have seq: "map_sum id set (LVPPool_query ?P (Sequence qs)) = Inr (\<Union>q\<in>set qs. selected ?P q)"
    if "\<forall>q\<in>set qs. \<exists>ds. LVPPool_query ?P q = Inr ds" for qs
  proof (cases "LVPPool_query ?P (Sequence qs)")
    case (Inl e)
    have "case LVPPool_query ?P (Sequence qs) of
         Inr devs \<Rightarrow> distinct devs \<and> set devs = (\<Union>q\<in>set qs. selected ?P q)
                     \<and> (\<forall>q\<in>set qs. \<exists>ds. LVPPool_query ?P q = Inr ds)
       | Inl e \<Rightarrow> \<exists>q\<in>set qs. LVPPool_query ?P q = Inl e"
      by (rule query_dedup_and_wildcard [THEN conjunct2, THEN conjunct1])
    then have "\<exists>q\<in>set qs. LVPPool_query ?P q = Inl e" unfolding Inl by (simp only: sum.case)
    with that show ?thesis by fastforce
  next
    case (Inr devs)
    have "case LVPPool_query ?P (Sequence qs) of
         Inr devs \<Rightarrow> distinct devs \<and> set devs = (\<Union>q\<in>set qs. selected ?P q)
                     \<and> (\<forall>q\<in>set qs. \<exists>ds. LVPPool_query ?P q = Inr ds)
       | Inl e \<Rightarrow> \<exists>q\<in>set qs. LVPPool_query ?P q = Inl e"
      by (rule query_dedup_and_wildcard [THEN conjunct2, THEN conjunct1])
    then have "set devs = (\<Union>q\<in>set qs. selected ?P q)"
      unfolding Inr by (simp del: LVPPool_query.simps)
    then show ?thesis unfolding Inr by simp
  qed
  have 1: "map_sum id set (LVPPool_query ?P (Sequence [Key ''A'', Key ''B''])) = Inr {?A, ?B}"
  proof -
    have "\<forall>q\<in>set [Key ''A'', Key ''B'']. \<exists>ds. LVPPool_query ?P q = Inr ds"
      using okA okB by (simp del: LVPPool_query.simps)
    from seq [OF this] show ?thesis unfolding set_simps using sA sB by auto
  qed
  have 2: "map_sum id set (LVPPool_query ?P (Sequence [Key ''A'', Key ''A'', Key ''B''])) = Inr {?A, ?B}"
    using query_dedup_and_wildcard [of ?P "Key ''A''" "Key ''B''", THEN conjunct1] 1
    by (simp only:)
  have 3: "map_sum id set (LVPPool_query ?P (Sequence [Key ''A''])) = Inr {?A}"
  proof -
    have "\<forall>q\<in>set [Key ''A'']. \<exists>ds. LVPPool_query ?P q = Inr ds"
      using okA by (simp del: LVPPool_query.simps)
    from seq [OF this] show ?thesis using sA by simp
  qed
  have 4: "LVPPool_query ?P (Sequence [Key ''Z'']) = Inl (ValueError ''invalid query'')"
  proof (cases "LVPPool_query ?P (Sequence [Key ''Z''])")
    case (Inl e)
    have "case LVPPool_query ?P (Sequence [Key ''Z'']) of
         Inr devs \<Rightarrow> distinct devs \<and> set devs = (\<Union>q\<in>set [Key ''Z'']. selected ?P q)
                     \<and> (\<forall>q\<in>set [Key ''Z'']. \<exists>ds. LVPPool_query ?P q = Inr ds)
       | Inl e \<Rightarrow> \<exists>q\<in>set [Key ''Z'']. LVPPool_query ?P q = Inl e"
      by (rule query_dedup_and_wildcard [THEN conjunct2, THEN conjunct1])
    then have "\<exists>q\<in>set [Key ''Z'']. LVPPool_query ?P q = Inl e"
      unfolding Inl by (simp only: sum.case)
    then have "LVPPool_query ?P (Key ''Z'') = Inl e" by (simp del: LVPPool_query.simps)
    with noZ Inl show ?thesis by simp
  next
    case (Inr devs)
    have "case LVPPool_query ?P (Sequence [Key ''Z'']) of
         Inr devs \<Rightarrow> distinct devs \<and> set devs = (\<Union>q\<in>set [Key ''Z'']. selected ?P q)
                     \<and> (\<forall>q\<in>set [Key ''Z'']. \<exists>ds. LVPPool_query ?P q = Inr ds)
       | Inl e \<Rightarrow> \<exists>q\<in>set [Key ''Z'']. LVPPool_query ?P q = Inl e"
      by (rule query_dedup_and_wildcard [THEN conjunct2, THEN conjunct1])
    then have "\<forall>q\<in>set [Key ''Z'']. \<exists>ds. LVPPool_query ?P q = Inr ds"
      unfolding Inr by (simp del: LVPPool_query.simps)
    then have "\<exists>ds. LVPPool_query ?P (Key ''Z'') = Inr ds" by (simp del: LVPPool_query.simps)
    with noZ show ?thesis by simp
  qed
  have "LVPPool_query ?P Ellipsis = Inr (LVPPool_iter ?P)"
    by (rule query_dedup_and_wildcard
              [of _ _ _ _ _ _ "[?A, ?B]", THEN conjunct2, THEN conjunct2, THEN conjunct2,
               THEN conjunct2, THEN conjunct1])
  then have 5: "LVPPool_query ?P Ellipsis = Inr [?A, ?B]"
    unfolding LVPPool_iter_def pool by simp
  from 1 2 3 4 5 show ?thesis by (intro conjI)
qed

text \<open>
  Claim C10. Querying the empty sequence returns the empty list of links; no error is
  raised.
\<close>

theorem query_empty_sequence: "LVPPool_query pool (Sequence []) = Inr []"
  by simp

theorem query_empty_sequence_witness:
  "LVPPool_query (LVPPool_init [ready_link ''A'' []]) (Sequence []) = Inr []"
  by (rule query_empty_sequence)

section \<open>Properties of the link\<close>

text \<open>
  Claim C9. A call of \<open>set\<close> with more than two positional arguments raises
  \<open>TypeError\<close> and leaves the link as it was: nothing is written to the port, nothing
  is read from it, nothing is logged.
\<close>

theorem set_too_many_positional:
  "LVP_set float_str (TooMany a b c others) kwargs l = (Inl TypeError, l)"
  by (simp add: LVP_set_def)

theorem set_too_many_positional_witness:
  "LVP_set (\<lambda>x. x) (TooMany (VStr ''speed'') (VInt 1) (VInt 2) []) [(''gain'', VInt 3)]
     (ready_link ''A'' [])
   = (Inl TypeError, ready_link ''A'' [])"
  by (rule set_too_many_positional)

section \<open>Properties of the coercion\<close>

lemma strip_decomp:
  "\<exists>pre post. v = pre @ strip v @ post \<and> list_all isspace pre \<and> list_all isspace post"
proof -
  let ?d = "dropWhile isspace v"
  have 1: "v = takeWhile isspace v @ ?d" by simp
  have 2: "?d = strip v @ rev (takeWhile isspace (rev ?d))"
    unfolding strip_def by (metis rev_append rev_rev_ident takeWhile_dropWhile_id)
  have 3: "list_all isspace (takeWhile isspace v)"
    by (simp add: list_all_iff) (meson set_takeWhileD)
  have 4: "list_all isspace (rev (takeWhile isspace (rev ?d)))"
    by (simp add: list_all_iff) (meson set_takeWhileD)
  from 1 2 have "v = takeWhile isspace v @ strip v @ rev (takeWhile isspace (rev ?d))" by simp
  with 3 4 show ?thesis by blast
qed

lemma strip_edges:
  assumes "strip v \<noteq> []"
  shows "\<not> isspace (hd (strip v)) \<and> \<not> isspace (last (strip v))"
proof -
  let ?d = "dropWhile isspace v"
  let ?e = "dropWhile isspace (rev ?d)"
  from assms have ne: "?e \<noteq> []" by (simp add: strip_def)
  then have l: "\<not> isspace (hd ?e)" by (rule hd_dropWhile)
  have last: "last (strip v) = hd ?e" using ne by (simp add: strip_def last_rev)
  have dne: "?d \<noteq> []"
  proof
    assume a: "?d = []"
    have "?e = []" unfolding a by simp
    with ne show False by simp
  qed
  have "?d = strip v @ rev (takeWhile isspace (rev ?d))"
    unfolding strip_def by (metis rev_append rev_rev_ident takeWhile_dropWhile_id)
  then have "hd ?d = hd (strip v @ rev (takeWhile isspace (rev ?d)))" by simp
  with assms have "hd (strip v) = hd ?d" by simp
  moreover have "\<not> isspace (hd ?d)" using dne by (rule hd_dropWhile)
  ultimately show ?thesis using l last by simp
qed

lemma digitpart_chars: "digitpart s \<Longrightarrow> \<forall>c\<in>set s. isdecimal c \<or> c = CHR ''_''"
  by (induction s rule: digitpart.induct) (auto split: if_splits)

lemma isdecimal_not_dot: "isdecimal c \<Longrightarrow> c \<noteq> CHR ''.'' \<and> \<not> is_e c"
  by (auto simp: isdecimal_def is_e_def ord_def)

lemma digitpart_float_number: "digitpart s \<Longrightarrow> float_number s"
proof -
  assume d: "digitpart s"
  then have "\<forall>c\<in>set s. c \<noteq> CHR ''.''" using digitpart_chars isdecimal_not_dot by fastforce
  then have tw: "takeWhile (\<lambda>c. c \<noteq> CHR ''.'') s = s"
    and dw: "dropWhile (\<lambda>c. c \<noteq> CHR ''.'') s = []"
    by simp_all
  show ?thesis unfolding float_number_def Let_def tw dw using d by simp
qed

lemma digitpart_float_syntax:
  assumes "digitpart (snd (split_sign s))" shows "float_syntax s"
proof -
  let ?b = "snd (split_sign s)"
  have "\<forall>c\<in>set ?b. \<not> is_e c"
    using assms digitpart_chars isdecimal_not_dot by (fastforce simp: is_e_def)
  then have tw: "takeWhile (\<lambda>c. \<not> is_e c) ?b = ?b"
    and dw: "dropWhile (\<lambda>c. \<not> is_e c) ?b = []"
    by simp_all
  have "float_number ?b" using assms by (rule digitpart_float_number)
  then show ?thesis unfolding float_syntax_def Let_def tw dw by simp
qed

text \<open>Whatever \<open>int\<close> accepts, \<open>float\<close> accepts as well: the order of the two
  attempts is what makes \<open>"3"\<close> an integer.\<close>

lemma py_int_py_float: "py_int s = Inr n \<Longrightarrow> py_float s = Inr (numstrip s)"
  using digitpart_float_syntax [of "numstrip s"]
  by (auto simp: py_int_def py_float_def split: prod.splits if_splits)

text \<open>
  Claim C1, as amended. The coercion trims the captured string; it returns the integer
  that \<open>int\<close> reads from the trimmed string when there is one, else the float that
  \<open>float\<close> reads from it when there is one, else the trimmed string. The trimmed
  string is the captured one without its leading and trailing white space.
\<close>

theorem normalize_response_trimmed:
  "(py_int (strip v) = Inr n \<longrightarrow> normalize_response v = VInt n)
   \<and> (py_int (strip v) = Inl e \<and> py_float (strip v) = Inr x \<longrightarrow> normalize_response v = VFloat x)
   \<and> (py_int (strip v) = Inl e \<and> py_float (strip v) = Inl e' \<longrightarrow>
        normalize_response v = VStr (strip v))
   \<and> (\<exists>pre post. v = pre @ strip v @ post \<and> list_all isspace pre \<and> list_all isspace post)
   \<and> (strip v \<noteq> [] \<longrightarrow> \<not> isspace (hd (strip v)) \<and> \<not> isspace (last (strip v)))"
  using strip_decomp [of v] strip_edges [of v]
  by (simp add: normalize_response_def)

theorem normalize_response_trimmed_witness:
  "normalize_response '' 12 '' = VInt 12
   \<and> normalize_response ''3.5 '' = VFloat ''3.5''
   \<and> normalize_response '' abc'' = VStr ''abc''"
proof -
  have i: "py_int (strip '' 12 '') = Inr 12" by code_simp
  have f1: "py_int (strip ''3.5 '') = Inl (ValueError ''3.5'')" by code_simp
  have f2: "py_float (strip ''3.5 '') = Inr ''3.5''" by code_simp
  have s1: "py_int (strip '' abc'') = Inl (ValueError ''abc'')" by code_simp
  have s2: "py_float (strip '' abc'') = Inl (ValueError ''abc'')" by code_simp
  have s3: "strip '' abc'' = ''abc''" by code_simp
  have "normalize_response '' 12 '' = VInt 12"
    using normalize_response_trimmed [of "'' 12 ''" 12] i by blast
  moreover have "normalize_response ''3.5 '' = VFloat ''3.5''"
    using normalize_response_trimmed [of "''3.5 ''" _ "ValueError ''3.5''" "''3.5''"] f1 f2
    by blast
  moreover have "normalize_response '' abc'' = VStr (strip '' abc'')"
    using normalize_response_trimmed [of "'' abc''" _ "ValueError ''abc''" _ "ValueError ''abc''"]
          s1 s2
    by blast
  ultimately show ?thesis unfolding s3 by blast
qed

text \<open>
  Claim C1 as stated fails: the response \<open>Parameter 'x': abc \<close> (with a trailing
  blank before the line end) gives the captured string \<open>"abc "\<close>, which is neither
  an integer nor a float, and the result is \<open>"abc"\<close>, not the captured string.
\<close>

theorem normalize_response_original_counterexample:
  "search GET_RESP_RE (''Parameter '' @ [CHR 0x27] @ ''x'' @ [CHR 0x27] @ '': abc '' @ [CHR 0x0A])
     = Some [(''name'', ''x''), (''value'', ''abc '')]
   \<and> py_int (strip ''abc '') = Inl (ValueError ''abc'')
   \<and> py_float (strip ''abc '') = Inl (ValueError ''abc'')
   \<and> normalize_response ''abc '' = VStr ''abc''
   \<and> normalize_response ''abc '' \<noteq> VStr ''abc ''"
  by code_simp

text \<open>What the operations leave alone: logging touches the message history only, and
  nothing but \<open>quiet\<close> and \<open>_force_manual\<close> assigns the quiet flag.\<close>

lemma log_fields [simp]:
  "lvp_quiet (LVP_log msg l) = lvp_quiet l"
  "lvp_init (LVP_log msg l) = lvp_init l"
  "written (LVP_log msg l) = written l"
  "incoming (LVP_log msg l) = incoming l"
  "timeout (LVP_log msg l) = timeout l"
  "declared (LVP_log msg l) = declared l"
  by (simp_all add: LVP_log_def Let_def)

lemma fold_log_fields [simp]:
  "lvp_quiet (fold LVP_log msgs l) = lvp_quiet l"
  "lvp_init (fold LVP_log msgs l) = lvp_init l"
  "written (fold LVP_log msgs l) = written l"
  "incoming (fold LVP_log msgs l) = incoming l"
  "timeout (fold LVP_log msgs l) = timeout l"
  "declared (fold LVP_log msgs l) = declared l"
  by (induction msgs arbitrary: l) simp_all

lemma send_raw_fields [simp]:
  "lvp_quiet (LVP_send_raw msg l) = lvp_quiet l"
  "lvp_init (LVP_send_raw msg l) = lvp_init l"
  "written (LVP_send_raw msg l) = written l @ [msg]"
  "incoming (LVP_send_raw msg l) = incoming l"
  "timeout (LVP_send_raw msg l) = timeout l"
  "declared (LVP_send_raw msg l) = declared l"
  by (simp_all add: LVP_send_raw_def serial_write_def)

lemma serial_read_fields:
  "serial_read l = (r, l') \<Longrightarrow>
     lvp_quiet l' = lvp_quiet l \<and> lvp_init l' = lvp_init l \<and> written l' = written l
     \<and> timeout l' = timeout l \<and> declared l' = declared l"
  by (auto simp: serial_read_def split: list.splits if_splits)

lemma init_fields:
  "LVP_init force l = (r, l') \<Longrightarrow>
     lvp_quiet l' = lvp_quiet l \<and> declared l' = declared l
     \<and> written l' = written l @ (if force \<or> \<not> lvp_init l then [''manual_connect'' @ [CHR 0x0A]] else [])
     \<and> (r = Inr () \<longrightarrow> lvp_init l')"
  by (auto simp: LVP_init_def Let_def split: prod.splits sum.splits if_splits
           dest!: serial_read_fields)

lemma init_done: "lvp_init l \<Longrightarrow> LVP_init False l = (Inr (), l)"
  by (simp add: LVP_init_def)

lemma recv_fields:
  "LVP_recv flush l = (r, l') \<Longrightarrow>
     lvp_quiet l' = lvp_quiet l \<and> lvp_init l' = lvp_init l \<and> written l' = written l
     \<and> declared l' = declared l"
  by (auto simp: LVP_recv_def split: prod.splits sum.splits if_splits dest!: serial_read_fields)

lemma send_not_ascii: "\<not> list_all isascii msg \<Longrightarrow> LVP_send msg tmo l = (Inl UnicodeEncodeError, l)"
  by (simp add: LVP_send_def)

lemma send_fields:
  assumes "LVP_send msg tmo l = (r, l')"
  shows "lvp_quiet l' = lvp_quiet l \<and> declared l' = declared l
     \<and> (lvp_init l \<longrightarrow> lvp_init l')
     \<and> written l' = written l @
          (if list_all isascii msg
           then (if lvp_init l then [] else [''manual_connect'' @ [CHR 0x0A]])
                @ (if fst (LVP_init False l) = Inr () then [terminated msg] else [])
           else [])"
proof (cases "list_all isascii msg")
  case False
  with assms show ?thesis by (simp add: send_not_ascii)
next
  case True
  obtain ri l1 where i: "LVP_init False l = (ri, l1)" by (cases "LVP_init False l")
  note fi = init_fields [OF i]
  show ?thesis
  proof (cases ri)
    case (Inl e)
    with assms True i have "l' = l1" by (simp add: LVP_send_def Let_def)
    with fi Inl i True show ?thesis by (auto simp: init_done)
  next
    case (Inr u)
    let ?l3 = "LVP_send_raw (terminated msg) (l1\<lparr>timeout := tmo\<rparr>)"
    obtain rr l4 where rc: "LVP_recv True ?l3 = (rr, l4)" by (cases "LVP_recv True ?l3")
    note fr = recv_fields [OF rc]
    have "l' = l4 \<or> (\<exists>out. l' = LVP_log out l4)"
      using assms True i Inr rc
      by (auto simp: LVP_send_def Let_def terminated_def split: sum.splits if_splits)
    with fi fr Inr i True show ?thesis by (auto simp: init_done)
  qed
qed

subsection \<open>The quiet scope\<close>

lemma quiet_enter_flag: "lvp_quiet (snd (LVP_quiet_enter l)) = lvp_quiet l"
  by (simp add: LVP_quiet_enter_def Let_def)

lemma manual_connect_ascii: "list_all isascii ''manual_connect''"
  by (simp add: isascii_def ord_def)

lemma manual_connect_terminated: "terminated ''manual_connect'' = ''manual_connect'' @ [CHR 0x0A]"
  by (simp add: terminated_def endswith_newline_def)

text \<open>The exit of the quiet scope after a block that ended normally.\<close>

lemma quiet_normal_exit:
  assumes "block (snd (LVP_quiet_enter l)) = (Inr r, l2)"
  shows "lvp_quiet (snd (LVP_quiet block l)) = lvp_quiet l
     \<and> (\<not> lvp_quiet l \<longrightarrow>
          (\<exists>ws. written (snd (LVP_quiet block l)) = written l2 @ ws \<and> ws \<noteq> []
                \<and> last ws = ''manual_connect'' @ [CHR 0x0A]))
     \<and> (lvp_quiet l \<longrightarrow> written (snd (LVP_quiet block l)) = written l2)"
proof (cases "lvp_quiet l")
  case True
  with assms show ?thesis
    by (simp add: LVP_quiet_def LVP_quiet_enter_def LVP_quiet_exit_def Let_def)
next
  case False
  let ?l2 = "l2\<lparr>lvp_quiet := False\<rparr>"
  obtain rs l3 where s: "LVP_send ''manual_connect'' None ?l2 = (rs, l3)"
    by (cases "LVP_send ''manual_connect'' None ?l2")
  have l3: "snd (LVP_quiet block l) = l3"
    using assms False s
    by (auto simp: LVP_quiet_def LVP_quiet_enter_def LVP_quiet_exit_def Let_def split: sum.splits)
  from send_fields [OF s] manual_connect_ascii manual_connect_terminated
  have q: "lvp_quiet l3 = False"
    and w: "written l3 = written l2 @
              ((if lvp_init ?l2 then [] else [''manual_connect'' @ [CHR 0x0A]])
               @ (if fst (LVP_init False ?l2) = Inr () then [''manual_connect'' @ [CHR 0x0A]] else []))"
    by simp_all
  have "lvp_init ?l2 \<Longrightarrow> fst (LVP_init False ?l2) = Inr ()" by (simp add: init_done)
  then have "\<exists>ws. written l3 = written l2 @ ws \<and> ws \<noteq> [] \<and> last ws = ''manual_connect'' @ [CHR 0x0A]"
    using w by (cases "lvp_init ?l2") auto
  with q False l3 show ?thesis by simp
qed

lemma quiet_block_raises:
  "block (snd (LVP_quiet_enter l)) = (Inl e, l2) \<Longrightarrow> LVP_quiet block l = (Inl e, l2)"
  by (cases "LVP_quiet_enter l") (simp add: LVP_quiet_def)

lemma quiet_already_quiet:
  "lvp_quiet l \<Longrightarrow> block (snd (LVP_quiet_enter l)) = (Inr r, l2) \<Longrightarrow>
     LVP_quiet block l = (Inr r, l2\<lparr>lvp_quiet := True\<rparr>)"
  by (simp add: LVP_quiet_def LVP_quiet_enter_def LVP_quiet_exit_def Let_def)

text \<open>
  Claim C5, as amended. Whatever the quiet flag was on entry, when the block ends
  normally the quiet scope leaves the flag at that value; when the link was not quiet
  on entry, the exit writes \<open>manual_connect\<close> to the port after everything the block
  wrote (once, or twice when the handshake of \<open>init\<close> is still due), while a link that
  was quiet on entry does nothing else on exit. When the block raises, the exception
  leaves the scope as it is: the flag is not assigned and nothing is written.
\<close>

theorem quiet_restores_prior_mode:
  "(block (snd (LVP_quiet_enter l)) = (Inr r, l2) \<longrightarrow>
      lvp_quiet (snd (LVP_quiet block l)) = lvp_quiet l
      \<and> (\<not> lvp_quiet l \<longrightarrow>
           (\<exists>ws. written (snd (LVP_quiet block l)) = written l2 @ ws \<and> ws \<noteq> []
                 \<and> last ws = ''manual_connect'' @ [CHR 0x0A]))
      \<and> (lvp_quiet l \<longrightarrow> LVP_quiet block l = (Inr r, l2\<lparr>lvp_quiet := True\<rparr>)))
   \<and> (block (snd (LVP_quiet_enter l)) = (Inl e, l2) \<longrightarrow> LVP_quiet block l = (Inl e, l2))"
proof (intro conjI impI)
  assume b: "block (snd (LVP_quiet_enter l)) = (Inr r, l2)"
  note n = quiet_normal_exit [of block l r l2, OF b]
  from n show "lvp_quiet (snd (LVP_quiet block l)) = lvp_quiet l" by (rule conjunct1)
  from n have "\<not> lvp_quiet l \<longrightarrow>
           (\<exists>ws. written (snd (LVP_quiet block l)) = written l2 @ ws \<and> ws \<noteq> []
                 \<and> last ws = ''manual_connect'' @ [CHR 0x0A])"
    by (rule conjunct2 [THEN conjunct1])
  then show "\<exists>ws. written (snd (LVP_quiet block l)) = written l2 @ ws \<and> ws \<noteq> []
                 \<and> last ws = ''manual_connect'' @ [CHR 0x0A]"
    if "\<not> lvp_quiet l" using that by (rule mp)
  show "LVP_quiet block l = (Inr r, l2\<lparr>lvp_quiet := True\<rparr>)" if "lvp_quiet l"
    using that b by (rule quiet_already_quiet [of l block r l2])
next
  assume "block (snd (LVP_quiet_enter l)) = (Inl e, l2)"
  then show "LVP_quiet block l = (Inl e, l2)" by (rule quiet_block_raises [of block l e l2])
qed

theorem quiet_restores_prior_mode_witness:
  "fst (LVP_quiet (LVP_exec ''go'') (ready_link ''A'' [''ok'', [], ''done''])) = Inr ''ok''
   \<and> lvp_quiet (snd (LVP_quiet (LVP_exec ''go'') (ready_link ''A'' [''ok'', [], ''done'']))) =
       lvp_quiet (ready_link ''A'' [''ok'', [], ''done''])
   \<and> written (snd (LVP_quiet (LVP_exec ''go'') (ready_link ''A'' [''ok'', [], ''done''])))
       = [''quiet_connect'' @ [CHR 0x0A], ''go'' @ [CHR 0x0A], ''manual_connect'' @ [CHR 0x0A]]
   \<and> fst (LVP_quiet (LVP_get1 ''x'') (ready_link ''A'' [''garbage''])) = Inl (RuntimeError ''garbage'')"
proof -
  let ?l = "ready_link ''A'' [''ok'', [], ''done'']"
  let ?l2 = "snd (LVP_exec ''go'' (snd (LVP_quiet_enter ?l)))"
  have "fst (LVP_exec ''go'' (snd (LVP_quiet_enter ?l))) = Inr ''ok''"
    by code_simp
  then have h: "LVP_exec ''go'' (snd (LVP_quiet_enter ?l)) = (Inr ''ok'', ?l2)"
    by (simp add: prod_eq_iff)
  have f: "fst (LVP_quiet (LVP_exec ''go'') ?l) = Inr ''ok''" by code_simp
  have w: "written (snd (LVP_quiet (LVP_exec ''go'') ?l))
       = [''quiet_connect'' @ [CHR 0x0A], ''go'' @ [CHR 0x0A], ''manual_connect'' @ [CHR 0x0A]]"
    by code_simp
  have q: "lvp_quiet (snd (LVP_quiet (LVP_exec ''go'') ?l)) = lvp_quiet ?l"
    using quiet_restores_prior_mode [of "LVP_exec ''go''" ?l "''ok''" ?l2, THEN conjunct1] h
    by blast
  let ?m = "ready_link ''A'' [''garbage'']"
  let ?m2 = "snd (LVP_get1 ''x'' (snd (LVP_quiet_enter ?m)))"
  have "fst (LVP_get1 ''x'' (snd (LVP_quiet_enter ?m))) = Inl (RuntimeError ''garbage'')"
    by code_simp
  then have g: "LVP_get1 ''x'' (snd (LVP_quiet_enter ?m)) = (Inl (RuntimeError ''garbage''), ?m2)"
    by (simp add: prod_eq_iff)
  have "LVP_quiet (LVP_get1 ''x'') ?m = (Inl (RuntimeError ''garbage''), ?m2)"
    using quiet_restores_prior_mode
            [of "LVP_get1 ''x''" ?m _ ?m2 "RuntimeError ''garbage''", THEN conjunct2] g
    by blast
  then have r: "fst (LVP_quiet (LVP_get1 ''x'') ?m) = Inl (RuntimeError ''garbage'')" by simp
  from f q w r show ?thesis by (intro conjI)
qed

text \<open>
  Claim C5 as stated fails when the block raises. On a ready link that is not quiet, a
  \<open>get\<close> inside the scope that meets a bad response raises, and no
  \<open>manual_connect\<close> follows. On a link that is quiet, a block that switches to
  manual mode and then raises leaves the flag unset, not at its prior value.
\<close>

theorem quiet_block_raises_counterexample:
  "\<not> lvp_quiet (ready_link ''A'' [''garbage''])
   \<and> fst (LVP_quiet (LVP_get1 ''x'') (ready_link ''A'' [''garbage''])) = Inl (RuntimeError ''garbage'')
   \<and> written (snd (LVP_quiet (LVP_get1 ''x'') (ready_link ''A'' [''garbage''])))
       = [''quiet_connect'' @ [CHR 0x0A], ''get(x)'' @ [CHR 0x0A]]
   \<and> lvp_quiet ((ready_link ''A'' [''ok'', [], ''garbage''])\<lparr>lvp_quiet := True\<rparr>)
   \<and> fst (LVP_quiet (LVP_force_manual (LVP_get1 ''x''))
            ((ready_link ''A'' [''ok'', [], ''garbage''])\<lparr>lvp_quiet := True\<rparr>))
       = Inl (RuntimeError ''garbage'')
   \<and> \<not> lvp_quiet (snd (LVP_quiet (LVP_force_manual (LVP_get1 ''x''))
            ((ready_link ''A'' [''ok'', [], ''garbage''])\<lparr>lvp_quiet := True\<rparr>)))"
  by code_simp

text \<open>
  Claim C4, evaluated on a ready link that is not quiet. Entering the quiet scope writes
  \<open>quiet_connect\<close> but leaves the quiet flag unset, so a receive inside the block is
  not a no-op: it reads from the port. Only with the flag set would it return the empty
  result.
\<close>

theorem quiet_enter_leaves_flag_unset:
  "\<not> fst (LVP_quiet_enter (ready_link ''A'' [''late'']))
   \<and> \<not> lvp_quiet (snd (LVP_quiet_enter (ready_link ''A'' [''late''])))
   \<and> written (snd (LVP_quiet_enter (ready_link ''A'' [''late'']))) = [''quiet_connect'' @ [CHR 0x0A]]
   \<and> fst (LVP_recv True (snd (LVP_quiet_enter (ready_link ''A'' [''late''])))) = Inr ''late''
   \<and> fst (LVP_recv True ((snd (LVP_quiet_enter (ready_link ''A'' [''late''])))\<lparr>lvp_quiet := True\<rparr>)) = Inr []"
  by code_simp

section \<open>Properties of the fan-out\<close>

lemma length_target [simp]: "length (target func devices i results) = length results"
  by (simp add: target_def split: sum.splits)

lemma length_fold_target [simp]:
  "length (fold (target func devices) finished results) = length results"
  by (induction finished arbitrary: results) simp_all


















section \<open>The matcher and the meaning of the patterns\<close>

lemma takeWhile_length_le:
  "n \<le> length (takeWhile cls s) \<longleftrightarrow> n \<le> length s \<and> list_all cls (take n s)"
proof (induction s arbitrary: n)
  case Nil
  then show ?case by simp
next
  case (Cons c s)
  show ?case using Cons.IH by (cases n) auto
qed

lemma take_literal: "take (length t) s = t \<longleftrightarrow> length t \<le> length s \<and> take (length t) s = t"
proof
  assume a: "take (length t) s = t"
  have "length (take (length t) s) = length t" unfolding a ..
  then have "length t \<le> length s" by simp
  with a show "length t \<le> length s \<and> take (length t) s = t" by simp
qed simp

lemma in_map_pair:
  "(n, g) \<in> set (map (\<lambda>(n, g). (n, F n g)) xs) \<longleftrightarrow> (\<exists>g'. (n, g') \<in> set xs \<and> g = F n g')"
  by (induction xs) auto

lemma in_map_pair2:
  "(n, g) \<in> set (map (\<lambda>(m, h). (k + m, a @ h)) xs) \<longleftrightarrow>
     (\<exists>m h. (m, h) \<in> set xs \<and> n = k + m \<and> g = a @ h)"
  by (induction xs) auto

lemma in_concat_pairs:
  "(n, g) \<in> set (concat (map (\<lambda>(n1, g1). map (\<lambda>(m, h). (n1 + m, g1 @ h)) (M n1)) xs)) \<longleftrightarrow>
     (\<exists>n1 g1 m h. (n1, g1) \<in> set xs \<and> (m, h) \<in> set (M n1) \<and> n = n1 + m \<and> g = g1 @ h)"
proof (induction xs)
  case Nil
  show ?case by simp
next
  case (Cons x xs)
  obtain n0 g0 where x: "x = (n0, g0)" by (cases x)
  let ?f = "\<lambda>(n1, g1). map (\<lambda>(m, h). (n1 + m, g1 @ h)) (M n1)"
  have "(n, g) \<in> set (concat (map ?f (x # xs))) \<longleftrightarrow>
          (n, g) \<in> set (map (\<lambda>(m, h). (n0 + m, g0 @ h)) (M n0)) \<or> (n, g) \<in> set (concat (map ?f xs))"
    unfolding x by (simp only: list.map concat.simps set_append Un_iff prod.case)
  also have "\<dots> \<longleftrightarrow> (\<exists>m h. (m, h) \<in> set (M n0) \<and> n = n0 + m \<and> g = g0 @ h)
       \<or> (\<exists>n1 g1 m h. (n1, g1) \<in> set xs \<and> (m, h) \<in> set (M n1) \<and> n = n1 + m \<and> g = g1 @ h)"
    by (simp only: in_map_pair2 Cons.IH)
  also have "\<dots> \<longleftrightarrow> (\<exists>n1 g1 m h. ((n1, g1) = (n0, g0) \<or> (n1, g1) \<in> set xs)
       \<and> (m, h) \<in> set (M n1) \<and> n = n1 + m \<and> g = g1 @ h)"
    by blast
  also have "\<dots> \<longleftrightarrow> (\<exists>n1 g1 m h. (n1, g1) \<in> set (x # xs)
       \<and> (m, h) \<in> set (M n1) \<and> n = n1 + m \<and> g = g1 @ h)"
    unfolding x by (simp only: list.set insert_iff)
  finally show ?case .
qed

lemma nonempty_take:
  "(1 \<le> n \<and> (n \<le> length s \<and> P) \<and> Q) \<longleftrightarrow> (n \<le> length s \<and> (take n s \<noteq> [] \<and> P \<and> Q))"
proof -
  have "take n s \<noteq> [] \<longleftrightarrow> 1 \<le> n" if "n \<le> length s" "1 \<le> n \<or> take n s \<noteq> []"
    using that by (cases n; cases s) simp_all
  then show ?thesis by blast
qed

lemma in_lengths:
  "(n, g) \<in> set (map (\<lambda>n. (n, [])) (rev [lo..<Suc k])) \<longleftrightarrow> lo \<le> n \<and> n \<le> k \<and> g = []"
  by auto

lemma match_piece_iff:
  "(n, g) \<in> set (match_piece r s) \<longleftrightarrow> n \<le> length s \<and> sem_piece r (take n s) g"
proof (induction r arbitrary: g)
  case (Literal t)
  show ?case
  proof
    assume "(n, g) \<in> set (match_piece (Literal t) s)"
    then have "take (length t) s = t" "n = length t" "g = []"
      by (auto split: if_splits)
    then show "n \<le> length s \<and> sem_piece (Literal t) (take n s) g"
      using take_literal [of t s] by simp
  next
    assume a: "n \<le> length s \<and> sem_piece (Literal t) (take n s) g"
    then have t: "t = take n s" and g: "g = []" and n: "n \<le> length s" by simp_all
    have "length t = n" unfolding t using n by simp
    then have "take (length t) s = t" using t by simp
    then show "(n, g) \<in> set (match_piece (Literal t) s)"
      using g \<open>length t = n\<close> by simp
  qed
next
  case (OneOrMore cls)
  have "(n, g) \<in> set (match_piece (OneOrMore cls) s) \<longleftrightarrow>
          1 \<le> n \<and> n \<le> length (takeWhile cls s) \<and> g = []"
    unfolding match_piece.simps by (rule in_lengths)
  also have "\<dots> \<longleftrightarrow> 1 \<le> n \<and> (n \<le> length s \<and> list_all cls (take n s)) \<and> g = []"
    by (simp only: takeWhile_length_le)
  also have "\<dots> \<longleftrightarrow> n \<le> length s \<and> (take n s \<noteq> [] \<and> list_all cls (take n s) \<and> g = [])"
    by (rule nonempty_take)
  finally show ?case by (simp only: sem_piece.simps)
next
  case (ZeroOrMore cls)
  have "(n, g) \<in> set (match_piece (ZeroOrMore cls) s) \<longleftrightarrow>
          0 \<le> n \<and> n \<le> length (takeWhile cls s) \<and> g = []"
    unfolding match_piece.simps by (rule in_lengths)
  also have "\<dots> \<longleftrightarrow> 0 \<le> n \<and> (n \<le> length s \<and> list_all cls (take n s)) \<and> g = []"
    by (simp only: takeWhile_length_le)
  also have "\<dots> \<longleftrightarrow> n \<le> length s \<and> (list_all cls (take n s) \<and> g = [])"
    by blast
  finally show ?case by (simp only: sem_piece.simps)
next
  case (Named name r)
  have "(n, g) \<in> set (match_piece (Named name r) s) \<longleftrightarrow>
          (\<exists>g'. (n, g') \<in> set (match_piece r s) \<and> g = g' @ [(name, take n s)])"
    unfolding match_piece.simps
    by (rule in_map_pair [where F = "\<lambda>n g. g @ [(name, take n s)]"])
  then show ?case using Named.IH by auto
qed

lemma match_seq_iff:
  "(n, g) \<in> set (match_seq p s) \<longleftrightarrow> n \<le> length s \<and> sem_seq p (take n s) g"
proof (induction p arbitrary: n g s)
  case Nil
  show ?case by auto
next
  case (Cons r rs)
  have unfold: "(n, g) \<in> set (match_seq (r # rs) s) \<longleftrightarrow>
      (\<exists>n1 g1 m h. (n1, g1) \<in> set (match_piece r s) \<and> (m, h) \<in> set (match_seq rs (drop n1 s))
                    \<and> n = n1 + m \<and> g = g1 @ h)"
    unfolding match_seq.simps
    by (rule in_concat_pairs [where M = "\<lambda>n1. match_seq rs (drop n1 s)"])
  show ?case
  proof
    assume "(n, g) \<in> set (match_seq (r # rs) s)"
    then obtain n1 g1 m h where
      1: "(n1, g1) \<in> set (match_piece r s)" and 2: "(m, h) \<in> set (match_seq rs (drop n1 s))"
      and n: "n = n1 + m" and g: "g = g1 @ h"
      using unfold by blast
    from 1 have p1: "n1 \<le> length s" "sem_piece r (take n1 s) g1" by (simp_all add: match_piece_iff)
    from 2 have p2: "m \<le> length s - n1" "sem_seq rs (take m (drop n1 s)) h"
      using Cons.IH [of m h "drop n1 s"] by simp_all
    have tk: "take n s = take n1 s @ take m (drop n1 s)" unfolding n by (rule take_add)
    show "n \<le> length s \<and> sem_seq (r # rs) (take n s) g"
    proof
      show "n \<le> length s" using p1(1) p2(1) n by simp
      have "sem_seq (r # rs) (take n1 s @ take m (drop n1 s)) (g1 @ h)"
        unfolding sem_seq.simps using p1(2) p2(2) by blast
      then show "sem_seq (r # rs) (take n s) g" unfolding tk g .
    qed
  next
    assume a: "n \<le> length s \<and> sem_seq (r # rs) (take n s) g"
    then have "sem_seq (r # rs) (take n s) g" by (rule conjunct2)
    then obtain w1 w2 g1 g2 where w: "take n s = w1 @ w2" and g: "g = g1 @ g2"
      and s1: "sem_piece r w1 g1" and s2: "sem_seq rs w2 g2"
      unfolding sem_seq.simps by blast
    have "length (take n s) = length (w1 @ w2)" unfolding w ..
    moreover from a have "n \<le> length s" by (rule conjunct1)
    ultimately have len: "length w1 + length w2 = n" by simp
    have "take (length w1) (take n s) = w1" unfolding w by simp
    then have w1: "w1 = take (length w1) s" using len by (simp add: min_def)
    have "drop (length w1) (take n s) = w2" unfolding w by simp
    then have e: "take (n - length w1) (drop (length w1) s) = w2" by (simp add: drop_take)
    from len have k: "n - length w1 = length w2" by simp
    have w2: "w2 = take (length w2) (drop (length w1) s)" using e unfolding k by simp
    from a have nle: "n \<le> length s" by (rule conjunct1)
    have l1: "length w1 \<le> length s" using len nle by simp
    have l2: "length w2 \<le> length (drop (length w1) s)" using len nle by simp
    have "sem_piece r (take (length w1) s) g1" using s1 w1 by simp
    with l1 have "(length w1, g1) \<in> set (match_piece r s)"
      unfolding match_piece_iff by simp
    moreover
    have "sem_seq rs (take (length w2) (drop (length w1) s)) g2" using s2 w2 by simp
    with l2 have "(length w2, g2) \<in> set (match_seq rs (drop (length w1) s))"
      unfolding Cons.IH by simp
    ultimately have "\<exists>n1 g1 m h. (n1, g1) \<in> set (match_piece r s)
         \<and> (m, h) \<in> set (match_seq rs (drop n1 s)) \<and> n = n1 + m \<and> g = g1 @ h"
      using len g by (intro exI [of _ "length w1"] exI [of _ g1] exI [of _ "length w2"] exI [of _ g2]) simp
    then show "(n, g) \<in> set (match_seq (r # rs) s)"
      by (rule unfold [THEN iffD2])
  qed
qed

lemma starts_iff: "starts p s g \<longleftrightarrow> (\<exists>n. (n, g) \<in> set (match_seq p s))"
proof
  assume "starts p s g"
  then obtain w post where s: "s = w @ post" and m: "sem_seq p w g"
    unfolding starts_def by blast
  have "length w \<le> length s \<and> sem_seq p (take (length w) s) g" using s m by simp
  then have "(length w, g) \<in> set (match_seq p s)" by (rule match_seq_iff [THEN iffD2])
  then show "\<exists>n. (n, g) \<in> set (match_seq p s)" ..
next
  assume "\<exists>n. (n, g) \<in> set (match_seq p s)"
  then obtain n where "(n, g) \<in> set (match_seq p s)" ..
  then have "sem_seq p (take n s) g" unfolding match_seq_iff by (rule conjunct2)
  moreover have "s = take n s @ drop n s" by simp
  ultimately show "starts p s g" unfolding starts_def by blast
qed

lemma re_match_None: "re_match p s = None \<longleftrightarrow> (\<forall>g. \<not> starts p s g)"
proof (cases "match_seq p s")
  case Nil
  then show ?thesis by (simp add: re_match_def starts_iff)
next
  case (Cons x xs)
  obtain n g where x: "x = (n, g)" by (cases x)
  have "(n, g) \<in> set (match_seq p s)" unfolding Cons x by simp
  then have "starts p s g" unfolding starts_iff ..
  then show ?thesis using Cons x by (auto simp: re_match_def)
qed

lemma re_match_Some: "re_match p s = Some g \<Longrightarrow> starts p s g"
proof -
  assume a: "re_match p s = Some g"
  then obtain n xs where "match_seq p s = (n, g) # xs"
    by (auto simp: re_match_def split: list.splits)
  then have "(n, g) \<in> set (match_seq p s)" by simp
  then show ?thesis unfolding starts_iff ..
qed

lemma occurs_Nil: "occurs p [] g \<longleftrightarrow> starts p [] g"
  by (simp add: occurs_def starts_def)

lemma occurs_Cons: "occurs p (c # cs) g \<longleftrightarrow> starts p (c # cs) g \<or> occurs p cs g"
proof
  assume "occurs p (c # cs) g"
  then obtain pre w post where s: "c # cs = pre @ w @ post" and m: "sem_seq p w g"
    unfolding occurs_def by blast
  show "starts p (c # cs) g \<or> occurs p cs g"
  proof (cases pre)
    case Nil
    with s m show ?thesis unfolding starts_def by auto
  next
    case (Cons d pre')
    with s have "cs = pre' @ w @ post" by simp
    with m show ?thesis unfolding occurs_def by blast
  qed
next
  assume "starts p (c # cs) g \<or> occurs p cs g"
  then show "occurs p (c # cs) g"
  proof
    assume "starts p (c # cs) g"
    then obtain w post where "c # cs = [] @ w @ post" "sem_seq p w g"
      unfolding starts_def by auto
    then show ?thesis unfolding occurs_def by blast
  next
    assume "occurs p cs g"
    then obtain pre w post where "cs = pre @ w @ post" "sem_seq p w g"
      unfolding occurs_def by blast
    then have "c # cs = (c # pre) @ w @ post" "sem_seq p w g" by simp_all
    then show ?thesis unfolding occurs_def by blast
  qed
qed

lemma search_None: "search p s = None \<longleftrightarrow> (\<forall>g. \<not> occurs p s g)"
proof (induction s)
  case Nil
  show ?case by (simp add: re_match_None occurs_Nil)
next
  case (Cons c cs)
  show ?case
  proof (cases "re_match p (c # cs)")
    case None
    then have "\<forall>g. \<not> starts p (c # cs) g" by (simp add: re_match_None)
    with None Cons.IH show ?thesis by (simp add: occurs_Cons)
  next
    case (Some g)
    then have "occurs p (c # cs) g" using re_match_Some occurs_Cons by blast
    with Some show ?thesis by auto
  qed
qed

lemma search_Some: "search p s = Some g \<Longrightarrow> occurs p s g"
proof (induction s)
  case Nil
  then show ?case by (simp add: re_match_Some occurs_Nil)
next
  case (Cons c cs)
  show ?case
  proof (cases "re_match p (c # cs)")
    case None
    with Cons show ?thesis by (simp add: occurs_Cons)
  next
    case (Some h)
    with Cons.prems have "h = g" by simp
    with Some show ?thesis using re_match_Some occurs_Cons by blast
  qed
qed

lemma fullmatch_None: "fullmatch p s = None \<longleftrightarrow> (\<forall>g. \<not> sem_seq p s g)"
proof -
  let ?xs = "filter (\<lambda>(n, g). n = length s) (match_seq p s)"
  have in_xs: "(n, g) \<in> set ?xs \<longleftrightarrow> n = length s \<and> sem_seq p s g" for n g
    using match_seq_iff [of n g p s] by auto
  have "fullmatch p s = None \<longleftrightarrow> ?xs = []"
    by (simp add: fullmatch_def split: list.splits prod.splits)
  also have "\<dots> \<longleftrightarrow> (\<forall>n g. (n, g) \<notin> set ?xs)"
    by (metis list.set_intros(1) empty_iff list.set(1) neq_Nil_conv surj_pair)
  also have "\<dots> \<longleftrightarrow> (\<forall>g. \<not> sem_seq p s g)" unfolding in_xs by blast
  finally show ?thesis .
qed

lemma fullmatch_Some: "fullmatch p s = Some g \<Longrightarrow> sem_seq p s g"
proof -
  let ?xs = "filter (\<lambda>(n, g). n = length s) (match_seq p s)"
  assume "fullmatch p s = Some g"
  then obtain n xs where "?xs = (n, g) # xs"
    by (auto simp: fullmatch_def split: list.splits)
  then have "(n, g) \<in> set ?xs" by simp
  then show ?thesis using match_seq_iff [of n g p s] by auto
qed

lemma sem_seq_Literal:
  "sem_seq (Literal t # rs) w g \<longleftrightarrow> (\<exists>w2. w = t @ w2 \<and> sem_seq rs w2 g)"
  by simp

lemma sem_seq_OneOrMore:
  "sem_seq (OneOrMore cls # rs) w g \<longleftrightarrow>
     (\<exists>w1 w2. w = w1 @ w2 \<and> w1 \<noteq> [] \<and> list_all cls w1 \<and> sem_seq rs w2 g)"
  by simp

lemma sem_seq_Named_OneOrMore:
  "sem_seq (Named name (OneOrMore cls) # rs) w g \<longleftrightarrow>
     (\<exists>w1 w2 g2. w = w1 @ w2 \<and> w1 \<noteq> [] \<and> list_all cls w1 \<and> g = (name, w1) # g2
                 \<and> sem_seq rs w2 g2)"
  by simp blast

lemma sem_seq_Named_ZeroOrMore:
  "sem_seq (Named name (ZeroOrMore cls) # rs) w g \<longleftrightarrow>
     (\<exists>w1 w2 g2. w = w1 @ w2 \<and> list_all cls w1 \<and> g = (name, w1) # g2 \<and> sem_seq rs w2 g2)"
  by simp blast


section \<open>Properties of \<open>get\<close>\<close>








section \<open>Properties of \<open>set\<close>\<close>

lemma terminated_set_request:
  "terminated (set_request float_str k v) = request float_str (k, v)"
  by (simp add: terminated_def endswith_newline_def set_request_def request_def)

lemma send_Inr:
  assumes "LVP_send msg tmo l = (Inr out, l')"
  shows "list_all isascii msg \<and> fst (LVP_init False l) = Inr () \<and> lvp_init l'"
proof -
  have a: "list_all isascii msg"
    using assms by (cases "list_all isascii msg") (simp_all add: send_not_ascii)
  obtain ri l1 where i: "LVP_init False l = (ri, l1)" by (cases "LVP_init False l")
  have ri: "ri = Inr ()"
    using assms a i by (cases ri) (simp_all add: LVP_send_def Let_def)
  with init_fields [OF i] have i1: "lvp_init l1" by simp
  let ?l3 = "LVP_send_raw (terminated msg) (l1\<lparr>timeout := tmo\<rparr>)"
  obtain rr l4 where rc: "LVP_recv True ?l3 = (rr, l4)" by (cases "LVP_recv True ?l3")
  from recv_fields [OF rc] i1 have i4: "lvp_init l4" by simp
  have "l' = l4 \<or> (\<exists>o'. l' = LVP_log o' l4)"
    using assms a i ri rc
    by (auto simp: LVP_send_def Let_def split: sum.splits if_splits)
  with i4 have "lvp_init l'" by auto
  with a ri i show ?thesis by simp
qed

lemma set1_written:
  assumes "LVP_set1 float_str k v l = (res, l')"
  shows "\<exists>hs ws. written l' = written l @ hs @ ws
           \<and> (hs = [] \<or> hs = [''manual_connect'' @ [CHR 0x0A]]) \<and> (lvp_init l \<longrightarrow> hs = [])
           \<and> (ws = [] \<or> ws = [request float_str (k, v)])
           \<and> (res = Inr () \<longrightarrow> ws = [request float_str (k, v)] \<and> lvp_init l')
           \<and> (lvp_init l \<longrightarrow> lvp_init l')"
proof -
  let ?msg = "set_request float_str k v"
  obtain rs l1 where s: "LVP_send ?msg None l = (rs, l1)" by (cases "LVP_send ?msg None l")
  have l': "l' = l1" using assms s by (auto simp: LVP_set1_def split: sum.splits option.splits if_splits)
  note f = send_fields [OF s, unfolded terminated_set_request]
  let ?hs = "if list_all isascii ?msg \<and> \<not> lvp_init l then [''manual_connect'' @ [CHR 0x0A]] else []"
  let ?ws = "if list_all isascii ?msg \<and> fst (LVP_init False l) = Inr ()
             then [request float_str (k, v)] else []"
  have w: "written l' = written l @ ?hs @ ?ws" using f l' by auto
  have ok: "?ws = [request float_str (k, v)] \<and> lvp_init l'" if "res = Inr ()"
  proof -
    from that assms s obtain out where "rs = Inr out"
      by (cases rs) (auto simp: LVP_set1_def)
    with s have "LVP_send ?msg None l = (Inr out, l1)" by simp
    from send_Inr [OF this] l' show ?thesis by simp
  qed
  have keep: "lvp_init l \<longrightarrow> lvp_init l'" using f l' by simp
  show ?thesis
    by (rule exI [of _ ?hs], rule exI [of _ ?ws]) (use w ok keep in auto)
qed

lemma set_each_written:
  "LVP_set_each float_str items l = (res, l') \<Longrightarrow>
   \<exists>hs n. written l' = written l @ hs @ map (request float_str) (take n items)
          \<and> (hs = [] \<or> hs = [''manual_connect'' @ [CHR 0x0A]]) \<and> (lvp_init l \<longrightarrow> hs = [])
          \<and> n \<le> length items \<and> (res = Inr () \<longrightarrow> n = length items)"
proof (induction items arbitrary: l)
  case Nil
  then show ?case by simp
next
  case (Cons item items)
  obtain k v where item: "item = (k, v)" by (cases item)
  obtain r1 l1 where s1: "LVP_set1 float_str k v l = (r1, l1)"
    by (cases "LVP_set1 float_str k v l")
  from set1_written [OF s1] obtain hs ws where
    w1: "written l1 = written l @ hs @ ws"
    and hs: "hs = [] \<or> hs = [''manual_connect'' @ [CHR 0x0A]]" "lvp_init l \<longrightarrow> hs = []"
    and ws: "ws = [] \<or> ws = [request float_str (k, v)]"
    and ok: "r1 = Inr () \<longrightarrow> ws = [request float_str (k, v)] \<and> lvp_init l1"
    by blast
  show ?case
  proof (cases r1)
    case (Inl e)
    with Cons.prems item s1 have r: "res = Inl e" "l' = l1" by simp_all
    from ws show ?thesis
    proof
      assume "ws = []"
      with w1 hs r show ?thesis
        by (intro exI [of _ hs] exI [of _ 0]) simp
    next
      assume "ws = [request float_str (k, v)]"
      with w1 hs r item show ?thesis
        by (intro exI [of _ hs] exI [of _ 1]) simp
    qed
  next
    case (Inr u)
    with Cons.prems item s1 have rest: "LVP_set_each float_str items l1 = (res, l')" by simp
    from Inr ok have wsr: "ws = [request float_str (k, v)]" and i1: "lvp_init l1" by simp_all
    from Cons.IH [OF rest] i1 obtain n where
      w2: "written l' = written l1 @ map (request float_str) (take n items)"
      and n: "n \<le> length items" "res = Inr () \<longrightarrow> n = length items"
      by auto
    from w1 w2 wsr hs n item show ?thesis
      by (intro exI [of _ hs] exI [of _ "Suc n"]) simp
  qed
qed

lemma fold_update_keys:
  "\<exists>new. map fst (fold (\<lambda>(k, v). AList.update k v) kw m) = map fst m @ new
         \<and> set new = set (map fst kw) - set (map fst m) \<and> distinct new"
proof (induction kw arbitrary: m)
  case Nil
  show ?case by simp
next
  case (Cons p kw)
  obtain k v where p: "p = (k, v)" by (cases p)
  let ?m = "AList.update k v m"
  from Cons.IH [of ?m] obtain new where
    n: "map fst (fold (\<lambda>(k, v). AList.update k v) kw ?m) = map fst ?m @ new"
       "set new = set (map fst kw) - set (map fst ?m)" "distinct new"
    by blast
  show ?case
  proof (cases "k \<in> set (map fst m)")
    case True
    then have "map fst ?m = map fst m" by (simp add: update_keys)
    with n p True show ?thesis by (intro exI [of _ new]) auto
  next
    case False
    then have e: "map fst ?m = map fst m @ [k]" by (simp add: update_keys)
    have "k \<notin> set new" using n(2) e by auto
    with n p False e show ?thesis by (intro exI [of _ "k # new"]) auto
  qed
qed

lemma fold_update_map_of:
  "map_of (fold (\<lambda>(k, v). AList.update k v) kw m) = map_of m ++ map_of (rev kw)"
proof (induction kw arbitrary: m)
  case Nil
  show ?case by simp
next
  case (Cons p kw)
  obtain k v where p: "p = (k, v)" by (cases p)
  have "map_of (fold (\<lambda>(k, v). AList.update k v) (p # kw) m)
          = map_of (AList.update k v m) ++ map_of (rev kw)"
    unfolding p using Cons.IH [of "AList.update k v m"] by simp
  also have "\<dots> = (map_of m)(k \<mapsto> v) ++ map_of (rev kw)" by (simp add: update_conv')
  also have "\<dots> = map_of m ++ map_of (rev (p # kw))"
    unfolding p by (simp add: map_add_def fun_eq_iff split: option.splits)
  finally show ?case .
qed

lemma sem_SET:
  "sem_seq SET_RESP_RE w g \<longleftrightarrow>
     (\<exists>name v. g = [(''name'', name), (''value'', v)] \<and> set_response_form w name v)"
proof
  assume a: "sem_seq SET_RESP_RE w g"
  from a obtain u1 where e1: "w = ''Parameter'' @ u1"
    and r1: "sem_seq (tl SET_RESP_RE) u1 g"
    unfolding SET_RESP_RE_def list.sel sem_seq_Literal by blast
  from r1 obtain ws1 u2 where e2: "u1 = ws1 @ u2"
    and c2: "ws1 \<noteq> []" "list_all isspace ws1"
    and r2: "sem_seq (tl (tl SET_RESP_RE)) u2 g"
    unfolding SET_RESP_RE_def list.sel sem_seq_OneOrMore by blast
  from r2 obtain u3 where e3: "u2 = [CHR 0x27] @ u3"
    and r3: "sem_seq (tl (tl (tl SET_RESP_RE))) u3 g"
    unfolding SET_RESP_RE_def list.sel sem_seq_Literal by blast
  from r3 obtain name u4 g4 where e4: "u3 = name @ u4"
    and c4: "name \<noteq> []" "list_all isword name"
    and gn: "g = (''name'', name) # g4"
    and r4: "sem_seq (tl (tl (tl (tl SET_RESP_RE)))) u4 g4"
    unfolding SET_RESP_RE_def list.sel sem_seq_Named_OneOrMore by blast
  from r4 obtain u5 where e5: "u4 = [CHR 0x27] @ u5"
    and r5: "sem_seq (tl (tl (tl (tl (tl SET_RESP_RE))))) u5 g4"
    unfolding SET_RESP_RE_def list.sel sem_seq_Literal by blast
  from r5 obtain ws2 u6 where e6: "u5 = ws2 @ u6"
    and c6: "ws2 \<noteq> []" "list_all isspace ws2"
    and r6: "sem_seq (tl (tl (tl (tl (tl (tl SET_RESP_RE)))))) u6 g4"
    unfolding SET_RESP_RE_def list.sel sem_seq_OneOrMore by blast
  from r6 obtain u7 where e7: "u6 = ''set to'' @ u7"
    and r7: "sem_seq (tl (tl (tl (tl (tl (tl (tl SET_RESP_RE))))))) u7 g4"
    unfolding SET_RESP_RE_def list.sel sem_seq_Literal by blast
  from r7 obtain ws3 u8 where e8: "u7 = ws3 @ u8"
    and c8: "ws3 \<noteq> []" "list_all isspace ws3"
    and r8: "sem_seq (tl (tl (tl (tl (tl (tl (tl (tl SET_RESP_RE)))))))) u8 g4"
    unfolding SET_RESP_RE_def list.sel sem_seq_OneOrMore by blast
  from r8 obtain u9 where e9: "u8 = [CHR 0x27] @ u9"
    and r9: "sem_seq (tl (tl (tl (tl (tl (tl (tl (tl (tl SET_RESP_RE))))))))) u9 g4"
    unfolding SET_RESP_RE_def list.sel sem_seq_Literal by blast
  from r9 obtain v u10 g10 where e10: "u9 = v @ u10"
    and c10: "v \<noteq> []" "list_all (\<lambda>c. c \<noteq> CHR 0x0A \<and> c \<noteq> CHR 0x0D \<and> c \<noteq> CHR 0x27) v"
    and gv: "g4 = (''value'', v) # g10"
    and r10: "sem_seq (tl (tl (tl (tl (tl (tl (tl (tl (tl (tl SET_RESP_RE)))))))))) u10 g10"
    unfolding SET_RESP_RE_def list.sel sem_seq_Named_OneOrMore by blast
  from r10 obtain u11 where e11: "u10 = [CHR 0x27] @ u11"
    and r11: "sem_seq (tl (tl (tl (tl (tl (tl (tl (tl (tl (tl (tl SET_RESP_RE))))))))))) u11 g10"
    unfolding SET_RESP_RE_def list.sel sem_seq_Literal by blast
  from r11 have z: "u11 = []" "g10 = []"
    unfolding SET_RESP_RE_def list.sel by simp_all
  have "w = ''Parameter'' @ ws1 @ [CHR 0x27] @ name @ [CHR 0x27] @ ws2 @ ''set to'' @ ws3 @ [CHR 0x27] @ v @ [CHR 0x27]"
    unfolding e1 e2 e3 e4 e5 e6 e7 e8 e9 e10 e11 z by simp
  moreover have "g = [(''name'', name), (''value'', v)]" unfolding gn gv z ..
  ultimately have "g = [(''name'', name), (''value'', v)] \<and> set_response_form w name v"
    unfolding set_response_form_def using c2 c4 c6 c8 c10 by blast
  then show "\<exists>name v. g = [(''name'', name), (''value'', v)] \<and> set_response_form w name v"
    by blast
next
  assume "\<exists>name v. g = [(''name'', name), (''value'', v)] \<and> set_response_form w name v"
  then obtain name v where g: "g = [(''name'', name), (''value'', v)]"
    and f: "set_response_form w name v" by blast
  from f obtain ws1 ws2 ws3 where
    w: "w = ''Parameter'' @ ws1 @ [CHR 0x27] @ name @ [CHR 0x27] @ ws2 @ ''set to'' @ ws3 @ [CHR 0x27] @ v @ [CHR 0x27]"
    and c: "ws1 \<noteq> []" "list_all isspace ws1" "name \<noteq> []" "list_all isword name"
    "ws2 \<noteq> []" "list_all isspace ws2" "ws3 \<noteq> []" "list_all isspace ws3" "v \<noteq> []"
    "list_all (\<lambda>c. c \<noteq> CHR 0x0A \<and> c \<noteq> CHR 0x0D \<and> c \<noteq> CHR 0x27) v"
    unfolding set_response_form_def by blast
  have b11: "sem_seq [Literal [CHR 0x27]] ([CHR 0x27]) []"
    unfolding sem_seq_Literal by simp
  have b10: "sem_seq [Named ''value'' (OneOrMore (\<lambda>c. c \<noteq> CHR 0x0A \<and> c \<noteq> CHR 0x0D \<and> c \<noteq> CHR 0x27)), Literal [CHR 0x27]]
      (v @ [CHR 0x27]) [(''value'', v)]"
    unfolding sem_seq_Named_OneOrMore using c b11 by blast
  have b9: "sem_seq [Literal [CHR 0x27], Named ''value'' (OneOrMore (\<lambda>c. c \<noteq> CHR 0x0A \<and> c \<noteq> CHR 0x0D \<and> c \<noteq> CHR 0x27)), Literal [CHR 0x27]]
      ([CHR 0x27] @ v @ [CHR 0x27]) [(''value'', v)]"
    unfolding sem_seq_Literal using c b10 by blast
  have b8: "sem_seq [OneOrMore isspace, Literal [CHR 0x27], Named ''value'' (OneOrMore (\<lambda>c. c \<noteq> CHR 0x0A \<and> c \<noteq> CHR 0x0D \<and> c \<noteq> CHR 0x27)), Literal [CHR 0x27]]
      (ws3 @ [CHR 0x27] @ v @ [CHR 0x27]) [(''value'', v)]"
    unfolding sem_seq_OneOrMore using c b9 by blast
  have b7: "sem_seq [Literal ''set to'', OneOrMore isspace, Literal [CHR 0x27], Named ''value'' (OneOrMore (\<lambda>c. c \<noteq> CHR 0x0A \<and> c \<noteq> CHR 0x0D \<and> c \<noteq> CHR 0x27)), Literal [CHR 0x27]]
      (''set to'' @ ws3 @ [CHR 0x27] @ v @ [CHR 0x27]) [(''value'', v)]"
    unfolding sem_seq_Literal using c b8 by blast
  have b6: "sem_seq [OneOrMore isspace, Literal ''set to'', OneOrMore isspace, Literal [CHR 0x27], Named ''value'' (OneOrMore (\<lambda>c. c \<noteq> CHR 0x0A \<and> c \<noteq> CHR 0x0D \<and> c \<noteq> CHR 0x27)), Literal [CHR 0x27]]
      (ws2 @ ''set to'' @ ws3 @ [CHR 0x27] @ v @ [CHR 0x27]) [(''value'', v)]"
    unfolding sem_seq_OneOrMore using c b7 by blast
  have b5: "sem_seq [Literal [CHR 0x27], OneOrMore isspace, Literal ''set to'', OneOrMore isspace, Literal [CHR 0x27], Named ''value'' (OneOrMore (\<lambda>c. c \<noteq> CHR 0x0A \<and> c \<noteq> CHR 0x0D \<and> c \<noteq> CHR 0x27)), Literal [CHR 0x27]]
      ([CHR 0x27] @ ws2 @ ''set to'' @ ws3 @ [CHR 0x27] @ v @ [CHR 0x27]) [(''value'', v)]"
    unfolding sem_seq_Literal using c b6 by blast
  have b4: "sem_seq [Named ''name'' (OneOrMore isword), Literal [CHR 0x27], OneOrMore isspace, Literal ''set to'', OneOrMore isspace, Literal [CHR 0x27], Named ''value'' (OneOrMore (\<lambda>c. c \<noteq> CHR 0x0A \<and> c \<noteq> CHR 0x0D \<and> c \<noteq> CHR 0x27)), Literal [CHR 0x27]]
      (name @ [CHR 0x27] @ ws2 @ ''set to'' @ ws3 @ [CHR 0x27] @ v @ [CHR 0x27]) [(''name'', name), (''value'', v)]"
    unfolding sem_seq_Named_OneOrMore using c b5 by blast
  have b3: "sem_seq [Literal [CHR 0x27], Named ''name'' (OneOrMore isword), Literal [CHR 0x27], OneOrMore isspace, Literal ''set to'', OneOrMore isspace, Literal [CHR 0x27], Named ''value'' (OneOrMore (\<lambda>c. c \<noteq> CHR 0x0A \<and> c \<noteq> CHR 0x0D \<and> c \<noteq> CHR 0x27)), Literal [CHR 0x27]]
      ([CHR 0x27] @ name @ [CHR 0x27] @ ws2 @ ''set to'' @ ws3 @ [CHR 0x27] @ v @ [CHR 0x27]) [(''name'', name), (''value'', v)]"
    unfolding sem_seq_Literal using c b4 by blast
  have b2: "sem_seq [OneOrMore isspace, Literal [CHR 0x27], Named ''name'' (OneOrMore isword), Literal [CHR 0x27], OneOrMore isspace, Literal ''set to'', OneOrMore isspace, Literal [CHR 0x27], Named ''value'' (OneOrMore (\<lambda>c. c \<noteq> CHR 0x0A \<and> c \<noteq> CHR 0x0D \<and> c \<noteq> CHR 0x27)), Literal [CHR 0x27]]
      (ws1 @ [CHR 0x27] @ name @ [CHR 0x27] @ ws2 @ ''set to'' @ ws3 @ [CHR 0x27] @ v @ [CHR 0x27]) [(''name'', name), (''value'', v)]"
    unfolding sem_seq_OneOrMore using c b3 by blast
  have b1: "sem_seq [Literal ''Parameter'', OneOrMore isspace, Literal [CHR 0x27], Named ''name'' (OneOrMore isword), Literal [CHR 0x27], OneOrMore isspace, Literal ''set to'', OneOrMore isspace, Literal [CHR 0x27], Named ''value'' (OneOrMore (\<lambda>c. c \<noteq> CHR 0x0A \<and> c \<noteq> CHR 0x0D \<and> c \<noteq> CHR 0x27)), Literal [CHR 0x27]]
      (''Parameter'' @ ws1 @ [CHR 0x27] @ name @ [CHR 0x27] @ ws2 @ ''set to'' @ ws3 @ [CHR 0x27] @ v @ [CHR 0x27]) [(''name'', name), (''value'', v)]"
    unfolding sem_seq_Literal using c b2 by blast
  show "sem_seq SET_RESP_RE w g"
    unfolding SET_RESP_RE_def w g using b1 by simp
qed

lemma occurs_SET:
  "occurs SET_RESP_RE out g \<longleftrightarrow>
     (\<exists>pre w post name v. out = pre @ w @ post \<and> g = [(''name'', name), (''value'', v)]
        \<and> set_response_form w name v)"
  unfolding occurs_def sem_SET by blast

lemma search_SET_None:
  "search SET_RESP_RE out = None \<longleftrightarrow>
     \<not> (\<exists>pre w post name v. out = pre @ w @ post \<and> set_response_form w name v)"
  unfolding search_None occurs_SET by blast

lemma search_SET_Some:
  assumes "search SET_RESP_RE out = Some data"
  shows "\<exists>pre w post. out = pre @ w @ post
           \<and> set_response_form w (groupdict data ''name'') (groupdict data ''value'')"
proof -
  from assms have "occurs SET_RESP_RE out data" by (rule search_Some)
  then obtain pre w post name v where o: "out = pre @ w @ post"
    and d: "data = [(''name'', name), (''value'', v)]" and f: "set_response_form w name v"
    unfolding occurs_SET by blast
  have "groupdict data ''name'' = name" "groupdict data ''value'' = v"
    unfolding d by (simp_all add: groupdict_def)
  with o f show ?thesis by blast
qed

lemma update_new_key:
  "key \<notin> set (map fst al) \<Longrightarrow> AList.update key v al = al @ [(key, v)]"
  by (induction al) auto

lemma set_each_stops:
  "LVP_set_each float_str items l = (Inl e, l') \<Longrightarrow>
   \<exists>n l1. n < length items \<and> LVP_set_each float_str (take n items) l = (Inr (), l1)
      \<and> LVP_set1 float_str (fst (items ! n)) (snd (items ! n)) l1 = (Inl e, l')"
proof (induction items arbitrary: l)
  case Nil
  then show ?case by simp
next
  case (Cons item items)
  obtain k v where item: "item = (k, v)" by (cases item)
  obtain r1 l1 where s1: "LVP_set1 float_str k v l = (r1, l1)"
    by (cases "LVP_set1 float_str k v l")
  show ?case
  proof (cases r1)
    case (Inl e1)
    with Cons.prems item s1 have "e1 = e" "l1 = l'" by simp_all
    with Inl s1 item show ?thesis
      by (intro exI [of _ 0] exI [of _ l]) simp
  next
    case (Inr u)
    with Cons.prems item s1 have "LVP_set_each float_str items l1 = (Inl e, l')" by simp
    from Cons.IH [OF this] obtain n l2 where n: "n < length items"
      and a: "LVP_set_each float_str (take n items) l1 = (Inr (), l2)"
      and b: "LVP_set1 float_str (fst (items ! n)) (snd (items ! n)) l2 = (Inl e, l')"
      by blast
    from n a b Inr s1 item show ?thesis
      by (intro exI [of _ "Suc n"] exI [of _ l2]) simp
  qed
qed

lemma set_each_all:
  "LVP_set_each float_str items l = (Inr (), l') \<Longrightarrow> n < length items \<Longrightarrow>
   \<exists>l1 l2. LVP_set_each float_str (take n items) l = (Inr (), l1)
      \<and> LVP_set1 float_str (fst (items ! n)) (snd (items ! n)) l1 = (Inr (), l2)"
proof (induction items arbitrary: l n)
  case Nil
  then show ?case by simp
next
  case (Cons item items)
  obtain k v where item: "item = (k, v)" by (cases item)
  obtain r1 l1 where s1: "LVP_set1 float_str k v l = (r1, l1)"
    by (cases "LVP_set1 float_str k v l")
  from Cons.prems(1) item s1 have r1: "r1 = Inr ()"
    and rest: "LVP_set_each float_str items l1 = (Inr (), l')"
    by (cases r1; simp)+
  show ?case
  proof (cases n)
    case 0
    with s1 r1 item show ?thesis by (intro exI [of _ l] exI [of _ l1]) simp
  next
    case (Suc j)
    with Cons.prems(2) have "j < length items" by simp
    from Cons.IH [OF rest this] obtain la lb where
      a: "LVP_set_each float_str (take j items) l1 = (Inr (), la)"
      and b: "LVP_set1 float_str (fst (items ! j)) (snd (items ! j)) la = (Inr (), lb)"
      by blast
    from a b Suc s1 r1 item show ?thesis by (intro exI [of _ la] exI [of _ lb]) simp
  qed
qed

lemma merge_mapping:
  "\<exists>items new. merge_args (Mapping m) kwargs = Inr items
      \<and> map fst items = map fst m @ new \<and> distinct new
      \<and> set new = set (map fst kwargs) - set (map fst m)
      \<and> map_of items = map_of m ++ map_of (rev kwargs)
      \<and> (distinct (map fst m) \<longrightarrow> distinct (map fst items))"
proof -
  let ?items = "fold (\<lambda>(k, v). AList.update k v) kwargs m"
  from fold_update_keys [of kwargs m] obtain new where
    n: "map fst ?items = map fst m @ new" "set new = set (map fst kwargs) - set (map fst m)"
       "distinct new"
    by blast
  have d: "distinct (map fst m) \<longrightarrow> distinct (map fst ?items)"
    unfolding n(1) using n(2) n(3) by auto
  have "merge_args (Mapping m) kwargs = Inr ?items" by simp
  with n d fold_update_map_of [of kwargs m] show ?thesis by blast
qed

lemma merge_pair:
  "\<exists>items. merge_args (KeyValue key v) kwargs = Inr items
      \<and> map_of items = (map_of kwargs)(key \<mapsto> v)
      \<and> (if key \<in> set (map fst kwargs) then map fst items = map fst kwargs
          else items = kwargs @ [(key, v)])
      \<and> (distinct (map fst kwargs) \<longrightarrow> distinct (map fst items))"
proof -
  let ?items = "AList.update key v kwargs"
  have 1: "merge_args (KeyValue key v) kwargs = Inr ?items" by simp
  have 2: "map_of ?items = (map_of kwargs)(key \<mapsto> v)" by (rule update_conv')
  have 3: "if key \<in> set (map fst kwargs) then map fst ?items = map fst kwargs
          else ?items = kwargs @ [(key, v)]"
    by (simp add: update_keys update_new_key)
  have 4: "distinct (map fst kwargs) \<longrightarrow> distinct (map fst ?items)"
    by (simp add: distinct_update)
  from 1 2 3 4 show ?thesis by blast
qed

lemma set_written:
  assumes "merge_args args kwargs = Inr items" "LVP_set float_str args kwargs l = (res, l')"
  shows "LVP_set_each float_str items l = (res, l')
     \<and> (\<exists>hs n. written l' = written l @ hs @ map (request float_str) (take n items)
          \<and> (hs = [] \<or> hs = [''manual_connect'' @ [CHR 0x0A]]) \<and> (lvp_init l \<longrightarrow> hs = [])
          \<and> n \<le> length items \<and> (res = Inr () \<longrightarrow> n = length items))"
proof -
  from assms have e: "LVP_set_each float_str items l = (res, l')" by (simp add: LVP_set_def)
  from e set_each_written [OF e] show ?thesis by blast
qed

text \<open>
  Claim C8, as amended. The arguments of \<open>set\<close> are merged into one list of
  assignments with one entry for each key. With a positional mapping, the keys of the
  mapping come first, in their order, then the named arguments whose keys are new; a named
  argument overrides the value of a key of the mapping and leaves it in its place. With a
  positional key and value, the named arguments come first and the pair is put after
  them, or overwrites the named argument of the same key in its place. The call then runs
  \<open>_set\<close> on the assignments in this order: what is written to the port is, after at most
  one handshake on a link not yet initialised, one request \<open>set(NAME,VALUE)\<close> for each
  assignment, up to and including the first one that fails; on success every assignment
  has been sent and has passed its check. Each \<open>_set\<close> raises whatever \<open>send\<close> raises. When
  \<open>send\<close> returns the response text: if the text holds no part of the form
  \<open>Parameter 'NAME' set to 'VALUE'\<close>, or the name of the match found differs from the
  requested one, \<open>RuntimeError\<close> is raised with the response text in its message;
  otherwise the assignment succeeds. The value of the response is not compared.
\<close>

theorem set_exchanges:
  "(merge_args NoPositional kwargs = Inr kwargs)
   \<and> (\<exists>items new. merge_args (Mapping m) kwargs = Inr items
          \<and> map fst items = map fst m @ new \<and> distinct new
          \<and> set new = set (map fst kwargs) - set (map fst m)
          \<and> map_of items = map_of m ++ map_of (rev kwargs)
          \<and> (distinct (map fst m) \<longrightarrow> distinct (map fst items)))
   \<and> (\<exists>items. merge_args (KeyValue key v) kwargs = Inr items
          \<and> map_of items = (map_of kwargs)(key \<mapsto> v)
          \<and> (if key \<in> set (map fst kwargs) then map fst items = map fst kwargs
              else items = kwargs @ [(key, v)])
          \<and> (distinct (map fst kwargs) \<longrightarrow> distinct (map fst items)))
   \<and> (merge_args args kwargs = Inr items \<and> LVP_set float_str args kwargs l = (res, l') \<longrightarrow>
        LVP_set_each float_str items l = (res, l')
        \<and> (\<exists>hs n. written l' = written l @ hs @ map (request float_str) (take n items)
              \<and> (hs = [] \<or> hs = [''manual_connect'' @ [CHR 0x0A]])
              \<and> (lvp_init l \<longrightarrow> hs = [])
              \<and> n \<le> length items \<and> (res = Inr () \<longrightarrow> n = length items)))
   \<and> (LVP_set_each float_str items l = (Inl e, l') \<longrightarrow>
        (\<exists>n l1. n < length items \<and> LVP_set_each float_str (take n items) l = (Inr (), l1)
           \<and> LVP_set1 float_str (fst (items ! n)) (snd (items ! n)) l1 = (Inl e, l')))
   \<and> (LVP_set_each float_str items l = (Inr (), l') \<and> i < length items \<longrightarrow>
        (\<exists>l1 l2. LVP_set_each float_str (take i items) l = (Inr (), l1)
           \<and> LVP_set1 float_str (fst (items ! i)) (snd (items ! i)) l1 = (Inr (), l2)))
   \<and> (LVP_send (set_request float_str name x) None l = (Inl e, l1) \<longrightarrow>
        LVP_set1 float_str name x l = (Inl e, l1))
   \<and> (LVP_send (set_request float_str name x) None l = (Inr out, l1) \<longrightarrow>
        (search SET_RESP_RE out = None \<longrightarrow>
           LVP_set1 float_str name x l = (Inl (RuntimeError out), l1))
        \<and> (search SET_RESP_RE out = Some data \<and> groupdict data ''name'' \<noteq> name \<longrightarrow>
             LVP_set1 float_str name x l = (Inl (RuntimeError out), l1))
        \<and> (search SET_RESP_RE out = Some data \<and> groupdict data ''name'' = name \<longrightarrow>
             LVP_set1 float_str name x l = (Inr (), l1))
        \<and> (search SET_RESP_RE out = None \<longleftrightarrow>
             \<not> (\<exists>pre w post nm val. out = pre @ w @ post \<and> set_response_form w nm val))
        \<and> (search SET_RESP_RE out = Some data \<longrightarrow>
             (\<exists>pre w post. out = pre @ w @ post
                \<and> set_response_form w (groupdict data ''name'') (groupdict data ''value''))))"
proof (intro conjI)
  show "merge_args NoPositional kwargs = Inr kwargs" by simp
  show "\<exists>items new. merge_args (Mapping m) kwargs = Inr items
          \<and> map fst items = map fst m @ new \<and> distinct new
          \<and> set new = set (map fst kwargs) - set (map fst m)
          \<and> map_of items = map_of m ++ map_of (rev kwargs)
          \<and> (distinct (map fst m) \<longrightarrow> distinct (map fst items))"
    by (rule merge_mapping)
  show "\<exists>items. merge_args (KeyValue key v) kwargs = Inr items
          \<and> map_of items = (map_of kwargs)(key \<mapsto> v)
          \<and> (if key \<in> set (map fst kwargs) then map fst items = map fst kwargs
              else items = kwargs @ [(key, v)])
          \<and> (distinct (map fst kwargs) \<longrightarrow> distinct (map fst items))"
    by (rule merge_pair)
  show "merge_args args kwargs = Inr items \<and> LVP_set float_str args kwargs l = (res, l') \<longrightarrow>
        LVP_set_each float_str items l = (res, l')
        \<and> (\<exists>hs n. written l' = written l @ hs @ map (request float_str) (take n items)
              \<and> (hs = [] \<or> hs = [''manual_connect'' @ [CHR 0x0A]])
              \<and> (lvp_init l \<longrightarrow> hs = [])
              \<and> n \<le> length items \<and> (res = Inr () \<longrightarrow> n = length items))"
  proof
    assume a: "merge_args args kwargs = Inr items \<and> LVP_set float_str args kwargs l = (res, l')"
    then have a1: "merge_args args kwargs = Inr items"
      and a2: "LVP_set float_str args kwargs l = (res, l')" by simp_all
    from a1 a2 show "LVP_set_each float_str items l = (res, l')
        \<and> (\<exists>hs n. written l' = written l @ hs @ map (request float_str) (take n items)
              \<and> (hs = [] \<or> hs = [''manual_connect'' @ [CHR 0x0A]])
              \<and> (lvp_init l \<longrightarrow> hs = [])
              \<and> n \<le> length items \<and> (res = Inr () \<longrightarrow> n = length items))"
      by (rule set_written)
  qed
  show "LVP_set_each float_str items l = (Inl e, l') \<longrightarrow>
        (\<exists>n l1. n < length items \<and> LVP_set_each float_str (take n items) l = (Inr (), l1)
           \<and> LVP_set1 float_str (fst (items ! n)) (snd (items ! n)) l1 = (Inl e, l'))"
    using set_each_stops by blast
  show "LVP_set_each float_str items l = (Inr (), l') \<and> i < length items \<longrightarrow>
        (\<exists>l1 l2. LVP_set_each float_str (take i items) l = (Inr (), l1)
           \<and> LVP_set1 float_str (fst (items ! i)) (snd (items ! i)) l1 = (Inr (), l2))"
    using set_each_all by blast
  show "LVP_send (set_request float_str name x) None l = (Inl e, l1) \<longrightarrow>
        LVP_set1 float_str name x l = (Inl e, l1)"
    by (simp add: LVP_set1_def)
  show "LVP_send (set_request float_str name x) None l = (Inr out, l1) \<longrightarrow>
        (search SET_RESP_RE out = None \<longrightarrow>
           LVP_set1 float_str name x l = (Inl (RuntimeError out), l1))
        \<and> (search SET_RESP_RE out = Some data \<and> groupdict data ''name'' \<noteq> name \<longrightarrow>
             LVP_set1 float_str name x l = (Inl (RuntimeError out), l1))
        \<and> (search SET_RESP_RE out = Some data \<and> groupdict data ''name'' = name \<longrightarrow>
             LVP_set1 float_str name x l = (Inr (), l1))
        \<and> (search SET_RESP_RE out = None \<longleftrightarrow>
             \<not> (\<exists>pre w post nm val. out = pre @ w @ post \<and> set_response_form w nm val))
        \<and> (search SET_RESP_RE out = Some data \<longrightarrow>
             (\<exists>pre w post. out = pre @ w @ post
                \<and> set_response_form w (groupdict data ''name'') (groupdict data ''value'')))"
  proof (intro impI conjI)
    assume s: "LVP_send (set_request float_str name x) None l = (Inr out, l1)"
    show "LVP_set1 float_str name x l = (Inl (RuntimeError out), l1)"
      if "search SET_RESP_RE out = None"
      using s that by (simp add: LVP_set1_def)
    show "LVP_set1 float_str name x l = (Inl (RuntimeError out), l1)"
      if "search SET_RESP_RE out = Some data \<and> groupdict data ''name'' \<noteq> name"
      using s that by (simp add: LVP_set1_def)
    show "LVP_set1 float_str name x l = (Inr (), l1)"
      if "search SET_RESP_RE out = Some data \<and> groupdict data ''name'' = name"
      using s that by (simp add: LVP_set1_def)
    show "search SET_RESP_RE out = None \<longleftrightarrow>
             \<not> (\<exists>pre w post nm val. out = pre @ w @ post \<and> set_response_form w nm val)"
      by (rule search_SET_None)
    show "\<exists>pre w post. out = pre @ w @ post
                \<and> set_response_form w (groupdict data ''name'') (groupdict data ''value'')"
      if "search SET_RESP_RE out = Some data" using that by (rule search_SET_Some)
  qed
qed

theorem set_exchanges_witness:
  "fst (LVP_set id (Mapping [(''a'', VInt 1), (''b'', VInt 2)]) [(''c'', VInt 3), (''a'', VInt 7)]
          (ready_link ''A'' [set_answer ''a'' ''7'', [], set_answer ''b'' ''2'', [],
                             set_answer ''c'' ''3''])) = Inr ()
   \<and> written (snd (LVP_set id (Mapping [(''a'', VInt 1), (''b'', VInt 2)])
                     [(''c'', VInt 3), (''a'', VInt 7)]
          (ready_link ''A'' [set_answer ''a'' ''7'', [], set_answer ''b'' ''2'', [],
                             set_answer ''c'' ''3''])))
       = [''set(a,7)'' @ [CHR 0x0A], ''set(b,2)'' @ [CHR 0x0A], ''set(c,3)'' @ [CHR 0x0A]]
   \<and> fst (LVP_set1 id ''a'' (VInt 7) (ready_link ''A'' [set_answer ''a'' ''7''])) = Inr ()
   \<and> fst (LVP_set1 id ''a'' (VInt 1) (ready_link ''A'' [set_answer ''b'' ''2'']))
       = Inl (RuntimeError (replace_crlf (set_answer ''b'' ''2'')))
   \<and> fst (LVP_set1 id ''a'' (VInt 1) (ready_link ''A'' [''garbage''])) = Inl (RuntimeError ''garbage'')
   \<and> fst (LVP_set1 id ''a'' (VInt 1) (ready_link ''A'' [])) = Inl Blocked"
proof -
  let ?m = "[(''a'', VInt 1), (''b'', VInt 2)]"
  let ?kw = "[(''c'', VInt 3), (''a'', VInt 7)]"
  let ?items = "[(''a'', VInt 7), (''b'', VInt 2), (''c'', VInt 3)]"
  let ?l = "ready_link ''A'' [set_answer ''a'' ''7'', [], set_answer ''b'' ''2'', [],
                              set_answer ''c'' ''3'']"
  let ?l' = "snd (LVP_set id (Mapping ?m) ?kw ?l)"
  have mg: "merge_args (Mapping ?m) ?kw = Inr ?items" by code_simp
  have r: "fst (LVP_set id (Mapping ?m) ?kw ?l) = Inr ()" by code_simp
  then have r': "LVP_set id (Mapping ?m) ?kw ?l = (Inr (), ?l')" by (simp add: prod_eq_iff)
  have i: "lvp_init ?l" and w: "written ?l = []" by (simp_all add: ready_link_def)
  have rq: "map (request id) ?items
              = [''set(a,7)'' @ [CHR 0x0A], ''set(b,2)'' @ [CHR 0x0A], ''set(c,3)'' @ [CHR 0x0A]]"
    by code_simp
  from set_exchanges [where args = "Mapping ?m" and kwargs = ?kw and items = ?items
        and float_str = id and l = ?l and res = "Inr ()" and l' = ?l'] mg r'
  have "\<exists>hs n. written ?l' = written ?l @ hs @ map (request id) (take n ?items)
              \<and> (hs = [] \<or> hs = [''manual_connect'' @ [CHR 0x0A]])
              \<and> (lvp_init ?l \<longrightarrow> hs = [])
              \<and> n \<le> length ?items \<and> (Inr () = (Inr () :: error + unit) \<longrightarrow> n = length ?items)"
    by blast
  then obtain hs n where "written ?l' = written ?l @ hs @ map (request id) (take n ?items)"
    "lvp_init ?l \<longrightarrow> hs = []" "n = length ?items" by blast
  with i w have "written ?l' = map (request id) ?items" by simp
  with rq have 2: "written ?l'
       = [''set(a,7)'' @ [CHR 0x0A], ''set(b,2)'' @ [CHR 0x0A], ''set(c,3)'' @ [CHR 0x0A]]"
    by simp
  let ?a = "ready_link ''A'' [set_answer ''a'' ''7'']"
  let ?outa = "replace_crlf (set_answer ''a'' ''7'')"
  let ?da = "[(''name'', ''a''), (''value'', ''7'')]"
  have sa: "fst (LVP_send (set_request id ''a'' (VInt 7)) None ?a) = Inr ?outa" by code_simp
  then have sa': "LVP_send (set_request id ''a'' (VInt 7)) None ?a
       = (Inr ?outa, snd (LVP_send (set_request id ''a'' (VInt 7)) None ?a))"
    by (simp add: prod_eq_iff)
  have ma: "search SET_RESP_RE ?outa = Some ?da" by code_simp
  have ga: "groupdict ?da ''name'' = ''a''" by code_simp
  have 3: "fst (LVP_set1 id ''a'' (VInt 7) ?a) = Inr ()"
    using set_exchanges [where float_str = id and name = "''a''" and x = "VInt 7" and l = ?a
        and out = ?outa and data = ?da
        and ?l1.0 = "snd (LVP_send (set_request id ''a'' (VInt 7)) None ?a)"]
      sa' ma ga
    by simp
  let ?b = "ready_link ''A'' [set_answer ''b'' ''2'']"
  let ?outb = "replace_crlf (set_answer ''b'' ''2'')"
  let ?db = "[(''name'', ''b''), (''value'', ''2'')]"
  have sb: "fst (LVP_send (set_request id ''a'' (VInt 1)) None ?b) = Inr ?outb" by code_simp
  then have sb': "LVP_send (set_request id ''a'' (VInt 1)) None ?b
       = (Inr ?outb, snd (LVP_send (set_request id ''a'' (VInt 1)) None ?b))"
    by (simp add: prod_eq_iff)
  have mb: "search SET_RESP_RE ?outb = Some ?db" by code_simp
  have gb: "groupdict ?db ''name'' \<noteq> ''a''" by code_simp
  have 4: "fst (LVP_set1 id ''a'' (VInt 1) ?b) = Inl (RuntimeError ?outb)"
    using set_exchanges [where float_str = id and name = "''a''" and x = "VInt 1" and l = ?b
        and out = ?outb and data = ?db
        and ?l1.0 = "snd (LVP_send (set_request id ''a'' (VInt 1)) None ?b)"]
      sb' mb gb
    by simp
  let ?g = "ready_link ''A'' [''garbage'']"
  have sg: "fst (LVP_send (set_request id ''a'' (VInt 1)) None ?g) = Inr ''garbage''"
    by code_simp
  then have sg': "LVP_send (set_request id ''a'' (VInt 1)) None ?g
       = (Inr ''garbage'', snd (LVP_send (set_request id ''a'' (VInt 1)) None ?g))"
    by (simp add: prod_eq_iff)
  have ng: "search SET_RESP_RE ''garbage'' = None" by code_simp
  have 5: "fst (LVP_set1 id ''a'' (VInt 1) ?g) = Inl (RuntimeError ''garbage'')"
    using set_exchanges [where float_str = id and name = "''a''" and x = "VInt 1" and l = ?g
        and out = "''garbage''"
        and ?l1.0 = "snd (LVP_send (set_request id ''a'' (VInt 1)) None ?g)"]
      sg' ng
    by simp
  let ?e = "ready_link ''A'' []"
  have se: "fst (LVP_send (set_request id ''a'' (VInt 1)) None ?e) = Inl Blocked" by code_simp
  then have se': "LVP_send (set_request id ''a'' (VInt 1)) None ?e
       = (Inl Blocked, snd (LVP_send (set_request id ''a'' (VInt 1)) None ?e))"
    by (simp add: prod_eq_iff)
  have 6: "fst (LVP_set1 id ''a'' (VInt 1) ?e) = Inl Blocked"
    using set_exchanges [where float_str = id and name = "''a''" and x = "VInt 1" and l = ?e
        and e = Blocked
        and ?l1.0 = "snd (LVP_send (set_request id ''a'' (VInt 1)) None ?e)"]
      se'
    by simp
  from r 2 3 4 5 6 show ?thesis by (intro conjI)
qed

text \<open>
  Claim C8 as stated fails for a positional pair given with named arguments:
  \<open>set("a", 1, b=2)\<close> stores the pair with \<open>kwargs[key] = value\<close>, after the named
  arguments, so \<open>set(b,2)\<close> is sent before \<open>set(a,1)\<close>; a device that answers in the order
  in which the caller gave the assignments is met with a \<open>RuntimeError\<close>.
\<close>

theorem set_order_counterexample:
  "merge_args (KeyValue ''a'' (VInt 1)) [(''b'', VInt 2)] = Inr [(''b'', VInt 2), (''a'', VInt 1)]
   \<and> fst (LVP_set id (KeyValue ''a'' (VInt 1)) [(''b'', VInt 2)]
            (ready_link ''A'' [set_answer ''b'' ''2'', [], set_answer ''a'' ''1''])) = Inr ()
   \<and> written (snd (LVP_set id (KeyValue ''a'' (VInt 1)) [(''b'', VInt 2)]
            (ready_link ''A'' [set_answer ''b'' ''2'', [], set_answer ''a'' ''1''])))
       = [''set(b,2)'' @ [CHR 0x0A], ''set(a,1)'' @ [CHR 0x0A]]
   \<and> fst (LVP_set id (KeyValue ''a'' (VInt 1)) [(''b'', VInt 2)]
            (ready_link ''A'' [set_answer ''a'' ''1'', [], set_answer ''b'' ''2'']))
       = Inl (RuntimeError (replace_crlf (set_answer ''a'' ''1'')))"
  by code_simp

end
